theory Spec2Isabelle
  imports Complex_Main "HOL-Library.Word" "HOL-Library.Multiset"
begin

unbundle bit_operations_syntax

section \<open>Data model (include/maze.h, include/assets.h)\<close>

text \<open>
  Conventions of the embedding.
  \<^item> C \<open>int\<close> is the 32-bit two's complement integer. It is modelled by \<open>int\<close>; where a
    product can leave the range (\<open>width * height\<close> in \<open>Maze_Create\<close> and \<open>Maze_Generate\<close>) the
    result is wrapped around with \<open>wrap32\<close>, as the compiled code does.
  \<^item> C \<open>float\<close> is IEEE binary32 with round to nearest, ties to even. A \<open>float\<close> value is the
    real number it denotes. In the functions whose result is compared with the exact value
    in a claim (\<open>Maze_Create\<close>, \<open>Maze_CellToWorld_f32\<close>, \<open>Maze_WorldToCell\<close>,
    \<open>CircleCircleIntersect\<close>, the placement of the pursuers) every operation rounds its exact
    result with \<open>fl32\<close>. A result of magnitude \<open>2^128\<close> or more stands for an infinity of C;
    no \<open>NaN\<close> is modelled. The wall rectangles, the movement of a circle, the steering of a
    pursuer and the particles are computed with exact reals.
  \<^item> The cast \<open>(int)f\<close> is \<open>float_to_int\<close>: truncation towards zero, and \<open>INT_MIN\<close> when the
    truncated value is outside the range of \<open>int\<close> (the result of the conversion instruction
    of x86-64; the C standard leaves it undefined).
  \<^item> \<open>unsigned char\<close> is \<open>8 word\<close>; an array is a list, indexed with \<open>!\<close> and updated
    with \<open>xs[i := v]\<close>.
  \<^item> \<open>malloc\<close>/\<open>calloc\<close> may fail: every allocation takes a boolean that says whether it
    succeeded. A returned \<open>NULL\<close> is \<open>None\<close>.
  \<^item> \<open>rand()\<close> is a sequence \<open>rnd :: nat \<Rightarrow> nat\<close> together with the number of calls made
    so far.
\<close>

type_synonym Vector2 = "real \<times> real"
type_synonym Vector3 = "real \<times> real \<times> real"

definition MAZE_NORTH :: int where "MAZE_NORTH = 1"
definition MAZE_EAST :: int where "MAZE_EAST = 2"
definition MAZE_SOUTH :: int where "MAZE_SOUTH = 4"
definition MAZE_WEST :: int where "MAZE_WEST = 8"
definition MAZE_ALL :: int where "MAZE_ALL = 15"

record Maze =
  width :: int
  height :: int
  cells :: "8 word list"
  cellSize :: real
  startPos :: Vector2
  exitPos :: Vector2

record Rectangle =
  rect_x :: real
  rect_y :: real
  rect_width :: real
  rect_height :: real

record WallRect =
  rect :: Rectangle
  isVertical :: bool

section \<open>Machine arithmetic\<close>

text \<open>
  \<open>wrap32\<close> reduces an integer to the range of a 32-bit \<open>int\<close>. \<open>fl32\<close> rounds a real number
  to binary32: \<open>expo32 r\<close> is the exponent \<open>e\<close> with \<open>2^e \<le> |r| < 2^(e + 1)\<close>, kept between
  \<open>-126\<close> (subnormal numbers) and \<open>127\<close>; the numbers of that binade are the multiples of
  \<open>2^(e - 23)\<close>, and \<open>rne\<close> picks the nearest multiple, the even one at a tie. \<open>fadd\<close>,
  \<open>fsub\<close>, \<open>fmul\<close>, \<open>fdiv\<close> and \<open>fsqrt\<close> are the correctly rounded operations, \<open>i2f\<close> the
  conversion of an \<open>int\<close> to \<open>float\<close>.
\<close>

definition INT_MAX :: int where "INT_MAX = 2147483647"
definition INT_MIN :: int where "INT_MIN = - 2147483648"

definition wrap32 :: "int \<Rightarrow> int" where
  "wrap32 n = (n + 2147483648) mod 4294967296 - 2147483648"

definition rne :: "real \<Rightarrow> int" where
  "rne t =
     (let f = \<lfloor>t\<rfloor>; d = t - of_int f
      in if d < 1 / 2 then f else if 1 / 2 < d then f + 1 else if even f then f else f + 1)"

fun expo_search :: "nat \<Rightarrow> int \<Rightarrow> real \<Rightarrow> int" where
  "expo_search 0 e r = e"
| "expo_search (Suc n) e r = (if \<bar>r\<bar> < 2 powi (e + 1) then e else expo_search n (e + 1) r)"

definition expo32 :: "real \<Rightarrow> int" where
  "expo32 r = expo_search 253 (- 126) r"

definition fl32 :: "real \<Rightarrow> real" where
  "fl32 r = (let q = 2 powi (expo32 r - 23) in of_int (rne (r / q)) * q)"

definition fadd :: "real \<Rightarrow> real \<Rightarrow> real" where "fadd a b = fl32 (a + b)"
definition fsub :: "real \<Rightarrow> real \<Rightarrow> real" where "fsub a b = fl32 (a - b)"
definition fmul :: "real \<Rightarrow> real \<Rightarrow> real" where "fmul a b = fl32 (a * b)"
definition fdiv :: "real \<Rightarrow> real \<Rightarrow> real" where "fdiv a b = fl32 (a / b)"
definition i2f :: "int \<Rightarrow> real" where "i2f n = fl32 (of_int n)"

definition float_to_int :: "real \<Rightarrow> int" where
  "float_to_int f =
     (let t = (if f < 0 then \<lceil>f\<rceil> else \<lfloor>f\<rfloor>)
      in if INT_MIN \<le> t \<and> t \<le> INT_MAX then t else INT_MIN)"

lemma rne_error: "\<bar>of_int (rne t) - t\<bar> \<le> 1 / 2"
proof -
  have "of_int \<lfloor>t\<rfloor> \<le> t" "t < of_int \<lfloor>t\<rfloor> + 1" by linarith+
  then show ?thesis by (auto simp: rne_def Let_def)
qed

lemma rne_of_int: "rne (of_int k) = k"
  by (simp add: rne_def)

lemma rne_nonneg: "0 \<le> t \<Longrightarrow> 0 \<le> rne t"
  by (auto simp: rne_def Let_def)

lemma expo_search_ge: "e \<le> expo_search n e r"
proof (induction n arbitrary: e)
  case (Suc n)
  show ?case using Suc [of "e + 1"] by simp
qed simp

lemma expo_search_le: "expo_search n e r \<le> e + int n"
proof (induction n arbitrary: e)
  case (Suc n)
  show ?case using Suc [of "e + 1"] by simp
qed simp

lemma expo_search_lower: "expo_search n e r = e \<or> 2 powi (expo_search n e r) \<le> \<bar>r\<bar>"
proof (induction n arbitrary: e)
  case (Suc n)
  show ?case
  proof (cases "\<bar>r\<bar> < 2 powi (e + 1)")
    case True
    then show ?thesis by simp
  next
    case False
    with Suc [of "e + 1"] show ?thesis by auto
  qed
qed simp

lemma expo_search_eq:
  assumes "e \<le> e'" "e' \<le> e + int n" "e' = e \<or> 2 powi e' \<le> \<bar>r\<bar>" "\<bar>r\<bar> < 2 powi (e' + 1)"
  shows "expo_search n e r = e'"
  using assms
proof (induction n arbitrary: e)
  case 0
  then show ?case by simp
next
  case (Suc n)
  show ?case
  proof (cases "\<bar>r\<bar> < 2 powi (e + 1)")
    case True
    have "e' = e"
    proof (rule ccontr)
      assume ne: "e' \<noteq> e"
      with Suc.prems have "2 powi e' \<le> \<bar>r\<bar>" "e + 1 \<le> e'" by auto
      moreover have "(2::real) powi (e + 1) \<le> 2 powi e'"
        using \<open>e + 1 \<le> e'\<close> by (intro power_int_increasing) simp_all
      ultimately show False using True by linarith
    qed
    then show ?thesis using True by simp
  next
    case False
    then have ne: "e' \<noteq> e" using Suc.prems(4) by auto
    then have "e + 1 \<le> e'" "e' \<le> e + 1 + int n" "e' = e + 1 \<or> 2 powi e' \<le> \<bar>r\<bar>"
      using Suc.prems by auto
    from Suc.IH [OF this Suc.prems(4)] show ?thesis using False by simp
  qed
qed

lemma expo32_range: "- 126 \<le> expo32 r" "expo32 r \<le> 127"
  using expo_search_ge [of "- 126" 253 r] expo_search_le [of 253 "- 126" r]
  by (simp_all add: expo32_def)

lemma expo32_lower: "expo32 r = - 126 \<or> 2 powi (expo32 r) \<le> \<bar>r\<bar>"
  using expo_search_lower [of 253 "- 126" r] by (simp add: expo32_def)

lemma expo32_eq:
  assumes "- 126 \<le> e" "e \<le> 127" "e = - 126 \<or> 2 powi e \<le> \<bar>r\<bar>" "\<bar>r\<bar> < 2 powi (e + 1)"
  shows "expo32 r = e"
  unfolding expo32_def using assms by (intro expo_search_eq) simp_all

lemma fl32_eval:
  assumes "- 126 \<le> e" "e \<le> 127" "e = - 126 \<or> 2 powi e \<le> \<bar>r\<bar>" "\<bar>r\<bar> < 2 powi (e + 1)"
  shows "fl32 r = of_int (rne (r / 2 powi (e - 23))) * 2 powi (e - 23)"
  by (simp add: fl32_def Let_def expo32_eq [OF assms])

lemma fl32_error:
  assumes "2 powi (- 126) \<le> \<bar>r\<bar>"
  shows "\<bar>fl32 r - r\<bar> \<le> \<bar>r\<bar> / 2 ^ 24"
proof -
  define e where "e = expo32 r"
  define q :: real where "q = 2 powi (e - 23)"
  have q: "0 < q" by (simp add: q_def zero_less_power_int)
  have "(2::real) powi (- 126) \<le> 2 powi e"
    using expo32_range(1) [of r] by (intro power_int_increasing) (simp_all add: e_def)
  have le: "2 powi e \<le> \<bar>r\<bar>"
    using expo32_lower [of r] assms by (auto simp: e_def)
  have qe: "q * 2 ^ 23 = 2 powi e"
    unfolding q_def by (simp add: power_int_diff)
  have "fl32 r - r = (of_int (rne (r / q)) - r / q) * q"
    using q by (simp add: fl32_def Let_def e_def q_def field_simps)
  then have "\<bar>fl32 r - r\<bar> = \<bar>of_int (rne (r / q)) - r / q\<bar> * q"
    using q by (simp add: abs_mult)
  also have "\<dots> \<le> 1 / 2 * q"
    using rne_error [of "r / q"] q by (intro mult_right_mono) simp_all
  also have "\<dots> = 2 powi e / 2 ^ 24" using qe [symmetric] by simp
  also have "\<dots> \<le> \<bar>r\<bar> / 2 ^ 24" using le by (simp add: divide_right_mono)
  finally show ?thesis .
qed

lemma fl32_exact:
  assumes "\<bar>k\<bar> < 2 ^ 24" "- 149 \<le> j"
  shows "fl32 (of_int k * 2 powi j) = of_int k * 2 powi j"
proof -
  define r :: real where "r = of_int k * 2 powi j"
  define e where "e = expo32 r"
  have ej: "e \<le> j + 23"
  proof (cases "e = - 126")
    case True
    then show ?thesis using assms(2) by simp
  next
    case False
    then have "2 powi e \<le> \<bar>r\<bar>" using expo32_lower [of r] by (simp add: e_def)
    also have "\<bar>r\<bar> = \<bar>of_int k\<bar> * 2 powi j" by (simp add: r_def abs_mult)
    also have "\<dots> < 2 ^ 24 * 2 powi j"
    proof -
      have "\<bar>of_int k :: real\<bar> < 2 ^ 24" using assms(1) by (metis of_int_abs of_int_less_numeral_power_cancel_iff)
      then show ?thesis by (intro mult_strict_right_mono) (simp_all add: zero_less_power_int)
    qed
    also have "\<dots> = 2 powi (j + 24)" by (simp add: power_int_add)
    finally have "(2::real) powi e < 2 powi (j + 24)" .
    have "e < j + 24"
    proof (rule ccontr)
      assume "\<not> e < j + 24"
      then have "(2::real) powi (j + 24) \<le> 2 powi e"
        by (intro power_int_increasing) simp_all
      with \<open>(2::real) powi e < 2 powi (j + 24)\<close> show False by simp
    qed
    then show ?thesis by simp
  qed
  define d where "d = nat (j + 23 - e)"
  have "r / 2 powi (e - 23) = of_int k * 2 powi (j - (e - 23))"
    by (simp add: r_def power_int_diff)
  also have "j - (e - 23) = int d" using ej by (simp add: d_def)
  also have "of_int k * (2::real) powi (int d) = of_int (k * 2 ^ d)" by simp
  finally have "r / 2 powi (e - 23) = of_int (k * 2 ^ d)" .
  then have "fl32 r = of_int (k * 2 ^ d) * 2 powi (e - 23)"
    by (simp add: fl32_def Let_def e_def [symmetric] rne_of_int del: of_int_mult of_int_power)
  also have "\<dots> = of_int k * (2 powi (int d) * 2 powi (e - 23))" by simp
  also have "2 powi (int d) * (2::real) powi (e - 23) = 2 powi (int d + (e - 23))"
    by (simp add: power_int_add)
  also have "int d + (e - 23) = j" using ej by (simp add: d_def)
  finally show ?thesis by (simp add: r_def)
qed

lemma fl32_0: "fl32 0 = 0"
  by (simp add: fl32_def rne_def)

lemma fl32_of_int:
  assumes "\<bar>k\<bar> \<le> 2 ^ 24"
  shows "fl32 (of_int k) = of_int k"
proof (cases "\<bar>k\<bar> < 2 ^ 24")
  case True
  from fl32_exact [OF True, of 0] show ?thesis by simp
next
  case False
  then have "k = 2 ^ 24 \<or> k = - (2 ^ 24)" using assms by auto
  then show ?thesis
  proof
    assume k: "k = 2 ^ 24"
    from fl32_exact [of 1 24] show ?thesis by (simp add: k)
  next
    assume k: "k = - (2 ^ 24)"
    from fl32_exact [of "- 1" 24] show ?thesis by (simp add: k)
  qed
qed

lemma fl32_half_int:
  assumes "\<bar>k\<bar> < 2 ^ 24"
  shows "fl32 (of_int k / 2) = of_int k / 2"
  using fl32_exact [OF assms, of "- 1"] by simp

lemma i2f_exact: "\<bar>n\<bar> \<le> 2 ^ 24 \<Longrightarrow> i2f n = of_int n"
  by (simp add: i2f_def fl32_of_int)

lemma i2f_simps [simp]:
  "i2f 0 = 0" "i2f 1 = 1" "numeral n \<le> (16777216::int) \<Longrightarrow> i2f (numeral n) = numeral n"
  using i2f_exact [of 0] i2f_exact [of 1] i2f_exact [of "numeral n"] by simp_all

lemma fl32_nonneg: "0 \<le> r \<Longrightarrow> 0 \<le> fl32 r"
  by (simp add: fl32_def Let_def rne_nonneg zero_less_power_int less_imp_le)

lemma wrap32_id: "INT_MIN \<le> n \<Longrightarrow> n \<le> INT_MAX \<Longrightarrow> wrap32 n = n"
  by (simp add: wrap32_def INT_MIN_def INT_MAX_def)

section \<open>maze.c: creation and queries\<close>

definition CellIndex :: "Maze \<Rightarrow> int \<Rightarrow> int \<Rightarrow> int" where
  "CellIndex maze x y =
     (if x < 0 \<or> x \<ge> width maze \<or> y < 0 \<or> y \<ge> height maze then - 1
      else y * width maze + x)"

text \<open>The loop \<open>for (i = 0; i < width * height; i++) cells[i] = MAZE_ALL\<close>.\<close>

definition init_all_walls :: "nat \<Rightarrow> 8 word list \<Rightarrow> 8 word list" where
  "init_all_walls n cs = fold (\<lambda>i c. c[i := word_of_int MAZE_ALL]) [0..<n] cs"

text \<open>
  \<open>Maze_Create\<close>: \<open>malloc_ok\<close> is the outcome of \<open>malloc(sizeof(Maze))\<close>, \<open>calloc_ok\<close> that
  of \<open>calloc(width * height, 1)\<close>, which yields zeroed bytes. The count \<open>width * height\<close> is
  an \<open>int\<close> product, in the call of \<open>calloc\<close> and in the bound of the loop that sets the
  walls. The exit \<open>(Vector2){width - 1, height - 1}\<close> converts two \<open>int\<close> values to \<open>float\<close>.
\<close>

definition Maze_Create :: "bool \<Rightarrow> bool \<Rightarrow> int \<Rightarrow> int \<Rightarrow> real \<Rightarrow> Maze option" where
  "Maze_Create malloc_ok calloc_ok w h cs =
     (if w < 1 \<or> h < 1 \<or> cs \<le> 0 then None
      else if \<not> malloc_ok then None
      else if \<not> calloc_ok then None
      else Some \<lparr> width = w, height = h,
                  cells = init_all_walls (nat (wrap32 (w * h))) (replicate (nat (wrap32 (w * h))) 0),
                  cellSize = cs,
                  startPos = (0, 0),
                  exitPos = (i2f (w - 1), i2f (h - 1)) \<rparr>)"

definition Maze_HasWall :: "Maze \<Rightarrow> int \<Rightarrow> int \<Rightarrow> int \<Rightarrow> bool" where
  "Maze_HasWall maze x y direction =
     (let idx = CellIndex maze x y in
      if idx < 0 then True
      else (uint (cells maze ! nat idx) AND direction) \<noteq> 0)"

definition Maze_CellToWorld :: "Maze \<Rightarrow> int \<Rightarrow> int \<Rightarrow> Vector2" where
  "Maze_CellToWorld maze cellX cellY =
     ((of_int cellX - of_int (width maze) * 0.5 + 0.5) * cellSize maze,
      (of_int cellY - of_int (height maze) * 0.5 + 0.5) * cellSize maze)"

text \<open>
  \<open>Maze_CellToWorld\<close> above is the exact value of the expression in the source, the centre
  of the cell. \<open>Maze_CellToWorld_f32\<close> is the \<open>float\<close> that the function returns: the
  \<open>int\<close> operands are converted and every operation rounds.
\<close>

definition Maze_CellToWorld_f32 :: "Maze \<Rightarrow> int \<Rightarrow> int \<Rightarrow> Vector2" where
  "Maze_CellToWorld_f32 maze cellX cellY =
     (fmul (fadd (fsub (i2f cellX) (fmul (i2f (width maze)) 0.5)) 0.5) (cellSize maze),
      fmul (fadd (fsub (i2f cellY) (fmul (i2f (height maze)) 0.5)) 0.5) (cellSize maze))"

definition Maze_WorldToCell :: "Maze \<Rightarrow> real \<Rightarrow> real \<Rightarrow> int \<times> int" where
  "Maze_WorldToCell maze worldX worldZ =
     (float_to_int (fadd (fdiv worldX (cellSize maze)) (fmul (i2f (width maze)) 0.5)),
      float_to_int (fadd (fdiv worldZ (cellSize maze)) (fmul (i2f (height maze)) 0.5)))"

definition Maze_IsExit :: "Maze \<Rightarrow> int \<Rightarrow> int \<Rightarrow> bool" where
  "Maze_IsExit maze cellX cellY =
     (cellX = float_to_int (fst (exitPos maze)) \<and> cellY = float_to_int (snd (exitPos maze)))"

text \<open>Cells inside the grid, and the mazes that \<open>Maze_Create\<close> hands out.\<close>

definition in_grid :: "Maze \<Rightarrow> int \<Rightarrow> int \<Rightarrow> bool" where
  "in_grid maze x y = (0 \<le> x \<and> x < width maze \<and> 0 \<le> y \<and> y < height maze)"

definition maze_ok :: "Maze \<Rightarrow> bool" where
  "maze_ok maze =
     (1 \<le> width maze \<and> 1 \<le> height maze \<and> 0 < cellSize maze \<and>
      length (cells maze) = nat (width maze * height maze))"

text \<open>The number of cells is in the range of \<open>int\<close>: the product does not wrap around.\<close>

definition fits_int :: "Maze \<Rightarrow> bool" where
  "fits_int maze = (width maze * height maze \<le> INT_MAX)"

section \<open>maze.c: generation by depth-first backtracking\<close>

text \<open>
  \<open>GetRandomNeighbor\<close> shuffles the three parallel arrays \<open>dirs\<close>, \<open>dx\<close>, \<open>dy\<close> with the
  loop \<open>for (i = 3; i > 0; i--) { j = rand() % (i + 1); swap ... }\<close> and returns the
  direction of the first neighbour, in shuffled order, that is inside the grid and not
  visited. The result \<open>None\<close> is the return value 0 (no neighbour), \<open>Some dir\<close> is the
  return value 1 with \<open>*outDir = dir\<close>. The call always consumes three values of \<open>rand()\<close>.

  The state of the loop of \<open>Maze_Generate\<close> is the maze, the array \<open>visited\<close>, the stack
  \<open>stack[0 .. stackTop - 1]\<close> written as a list with the top of the stack first, and the
  number of calls of \<open>rand()\<close> so far. \<open>gen_step\<close> is one iteration of the loop body,
  \<open>gen_loop\<close> the loop \<open>while (stackTop > 0)\<close>; \<open>clear_wall c dir\<close> is \<open>c &= ~dir\<close> on an
  \<open>unsigned char\<close>. In \<open>Maze_Generate\<close>, \<open>visited_ok\<close> and \<open>stack_ok\<close> are the outcomes of
  the two allocations; when one fails the function returns and leaves the maze as it is.
  The result is the maze together with the new number of calls of \<open>rand()\<close>; it is
  \<open>None\<close> if the loop does not terminate.
\<close>

definition IsValidUnvisited :: "Maze \<Rightarrow> int \<Rightarrow> int \<Rightarrow> bool list \<Rightarrow> bool" where
  "IsValidUnvisited maze x y visited =
     (let idx = CellIndex maze x y in if idx < 0 then False else \<not> visited ! nat idx)"

definition swap_at :: "'a list \<Rightarrow> nat \<Rightarrow> nat \<Rightarrow> 'a list" where
  "swap_at xs i j = (let temp = xs ! i; xs1 = xs[i := xs ! j] in xs1[j := temp])"

fun shuffle_dirs ::
  "(nat \<Rightarrow> nat) \<Rightarrow> nat \<Rightarrow> nat \<Rightarrow> int list \<times> int list \<times> int list \<Rightarrow> int list \<times> int list \<times> int list"
where
  "shuffle_dirs rnd k 0 arrs = arrs"
| "shuffle_dirs rnd k (Suc i') (dirs, dx, dy) =
     (let i = Suc i'; j = rnd k mod (i + 1) in
      shuffle_dirs rnd (k + 1) i' (swap_at dirs i j, swap_at dx i j, swap_at dy i j))"

definition dirs4 :: "int list" where "dirs4 = [MAZE_NORTH, MAZE_EAST, MAZE_SOUTH, MAZE_WEST]"
definition dx4 :: "int list" where "dx4 = [0, 1, 0, - 1]"
definition dy4 :: "int list" where "dy4 = [- 1, 0, 1, 0]"
definition oppositeDir :: "int list" where
  "oppositeDir = [MAZE_SOUTH, MAZE_WEST, MAZE_NORTH, MAZE_EAST]"

definition GetRandomNeighbor ::
  "(nat \<Rightarrow> nat) \<Rightarrow> nat \<Rightarrow> Maze \<Rightarrow> int \<Rightarrow> int \<Rightarrow> bool list \<Rightarrow> int option" where
  "GetRandomNeighbor rnd k maze x y visited =
     (case shuffle_dirs rnd k 3 (dirs4, dx4, dy4) of
        (dirs, dx, dy) \<Rightarrow>
          (case find (\<lambda>i. IsValidUnvisited maze (x + dx ! i) (y + dy ! i) visited) [0..<4] of
             Some i \<Rightarrow> Some (dirs ! i)
           | None \<Rightarrow> None))"

definition clear_wall :: "8 word \<Rightarrow> int \<Rightarrow> 8 word" where
  "clear_wall c dir = word_of_int (uint c AND NOT dir)"

record gen_state =
  g_maze :: Maze
  g_visited :: "bool list"
  g_stack :: "(int \<times> int) list"
  g_calls :: nat

definition gen_step :: "(nat \<Rightarrow> nat) \<Rightarrow> gen_state \<Rightarrow> gen_state" where
  "gen_step rnd s =
     (case g_stack s of
        [] \<Rightarrow> s
      | (x, y) # rest \<Rightarrow>
          (case GetRandomNeighbor rnd (g_calls s) (g_maze s) x y (g_visited s) of
             Some dir \<Rightarrow>
               (let dirIdx = (case find (\<lambda>i. dirs4 ! i = dir) [0..<4] of Some i \<Rightarrow> i | None \<Rightarrow> 0);
                    nx = x + dx4 ! dirIdx;
                    ny = y + dy4 ! dirIdx;
                    currIdx = CellIndex (g_maze s) x y;
                    nextIdx = CellIndex (g_maze s) nx ny;
                    cells1 = (cells (g_maze s))
                               [nat currIdx := clear_wall (cells (g_maze s) ! nat currIdx) dir];
                    cells2 = cells1
                               [nat nextIdx := clear_wall (cells1 ! nat nextIdx) (oppositeDir ! dirIdx)]
                in s\<lparr> g_maze := (g_maze s)\<lparr> cells := cells2 \<rparr>,
                      g_visited := (g_visited s)[nat nextIdx := True],
                      g_stack := (nx, ny) # (x, y) # rest,
                      g_calls := g_calls s + 3 \<rparr>)
           | None \<Rightarrow> s\<lparr> g_stack := rest, g_calls := g_calls s + 3 \<rparr>))"

partial_function (option) gen_loop :: "(nat \<Rightarrow> nat) \<Rightarrow> gen_state \<Rightarrow> gen_state option" where
  "gen_loop rnd s = (if g_stack s = [] then Some s else gen_loop rnd (gen_step rnd s))"


declare gen_loop.simps [code]

definition gen_init :: "Maze \<Rightarrow> nat \<Rightarrow> gen_state" where
  "gen_init maze k =
     \<lparr> g_maze = maze,
       g_visited = (replicate (nat (wrap32 (width maze * height maze))) False)
                     [nat (CellIndex maze 0 0) := True],
       g_stack = [(0, 0)],
       g_calls = k \<rparr>"

definition Maze_Generate ::
  "bool \<Rightarrow> bool \<Rightarrow> (nat \<Rightarrow> nat) \<Rightarrow> nat \<Rightarrow> Maze \<Rightarrow> (Maze \<times> nat) option" where
  "Maze_Generate visited_ok stack_ok rnd k maze =
     (if \<not> visited_ok then Some (maze, k)
      else if \<not> stack_ok then Some (maze, k)
      else case gen_loop rnd (gen_init maze k) of
             None \<Rightarrow> None
           | Some s \<Rightarrow> Some (g_maze s, g_calls s))"

section \<open>The passages of a maze\<close>

text \<open>
  The cells in row-major order; the passage between a cell and its east (south)
  neighbour is open when neither of the two cells has a wall on the shared side;
  \<open>passage\<close> is the adjacency of the graph of open passages.
\<close>

definition all_cells :: "Maze \<Rightarrow> (int \<times> int) list" where
  "all_cells m = concat (map (\<lambda>y. map (\<lambda>x. (x, y)) [0..width m - 1]) [0..height m - 1])"

definition open_east :: "Maze \<Rightarrow> int \<Rightarrow> int \<Rightarrow> bool" where
  "open_east m x y =
     (in_grid m x y \<and> in_grid m (x + 1) y \<and>
      \<not> Maze_HasWall m x y MAZE_EAST \<and> \<not> Maze_HasWall m (x + 1) y MAZE_WEST)"

definition open_south :: "Maze \<Rightarrow> int \<Rightarrow> int \<Rightarrow> bool" where
  "open_south m x y =
     (in_grid m x y \<and> in_grid m x (y + 1) \<and>
      \<not> Maze_HasWall m x y MAZE_SOUTH \<and> \<not> Maze_HasWall m x (y + 1) MAZE_NORTH)"

fun passage :: "Maze \<Rightarrow> int \<times> int \<Rightarrow> int \<times> int \<Rightarrow> bool" where
  "passage m (x, y) (x', y') =
     ((y' = y \<and> x' = x + 1 \<and> open_east m x y) \<or>
      (y' = y \<and> x = x' + 1 \<and> open_east m x' y') \<or>
      (x' = x \<and> y' = y + 1 \<and> open_south m x y) \<or>
      (x' = x \<and> y = y' + 1 \<and> open_south m x' y'))"

definition num_passages :: "Maze \<Rightarrow> nat" where
  "num_passages m =
     length (filter (\<lambda>(x, y). open_east m x y) (all_cells m)) +
     length (filter (\<lambda>(x, y). open_south m x y) (all_cells m))"

definition walls_symmetric :: "Maze \<Rightarrow> bool" where
  "walls_symmetric m =
     (\<forall>(x, y) \<in> set (all_cells m).
        (in_grid m (x + 1) y \<longrightarrow>
           Maze_HasWall m x y MAZE_EAST = Maze_HasWall m (x + 1) y MAZE_WEST) \<and>
        (in_grid m x (y + 1) \<longrightarrow>
           Maze_HasWall m x y MAZE_SOUTH = Maze_HasWall m x (y + 1) MAZE_NORTH))"

definition spanning_tree :: "Maze \<Rightarrow> bool" where
  "spanning_tree m =
     (int (num_passages m) = width m * height m - 1 \<and>
      (\<forall>a \<in> set (all_cells m). \<forall>b \<in> set (all_cells m). (passage m)\<^sup>*\<^sup>* a b))"

section \<open>Creation\<close>

lemma init_all_walls_aux:
  "n \<le> length cs \<Longrightarrow>
     fold (\<lambda>i c. c[i := v]) [0..<n] cs = replicate n v @ drop n cs"
proof (induction n)
  case 0
  then show ?case by simp
next
  case (Suc n)
  then have "fold (\<lambda>i c. c[i := v]) [0..<Suc n] cs = (replicate n v @ drop n cs)[n := v]"
    by simp
  also have "\<dots> = replicate n v @ (drop n cs)[0 := v]"
    by (simp add: list_update_append)
  also have "(drop n cs)[0 := v] = v # drop (Suc n) cs"
    using Suc.prems by (cases "drop n cs") (auto simp: drop_Suc drop_tl)
  finally show ?case
    by (simp add: replicate_append_same)
qed

lemma init_all_walls_replicate:
  "init_all_walls n (replicate n 0) = replicate n 15"
  using init_all_walls_aux [of n "replicate n 0" "word_of_int MAZE_ALL"]
  by (simp add: init_all_walls_def MAZE_ALL_def)

lemma Maze_Create_Some:
  assumes "Maze_Create a1 a2 w h cs = Some m" and "w * h \<le> INT_MAX"
  shows "1 \<le> w \<and> 1 \<le> h \<and> 0 < cs \<and> a1 \<and> a2 \<and>
     m = \<lparr> width = w, height = h, cells = replicate (nat (w * h)) 15, cellSize = cs,
           startPos = (0, 0), exitPos = (i2f (w - 1), i2f (h - 1)) \<rparr>"
proof -
  have wh: "1 \<le> w" "1 \<le> h" using assms(1) by (auto simp: Maze_Create_def split: if_splits)
  then have "0 \<le> w * h" by simp
  then have "wrap32 (w * h) = w * h"
    using assms(2) by (intro wrap32_id) (simp_all add: INT_MIN_def)
  then show ?thesis
    using assms(1) by (auto simp: Maze_Create_def init_all_walls_replicate split: if_splits)
qed

lemma Maze_Create_maze_ok:
  "Maze_Create a1 a2 w h cs = Some m \<Longrightarrow> w * h \<le> INT_MAX \<Longrightarrow> maze_ok m"
  by (drule Maze_Create_Some) (auto simp: maze_ok_def)

lemma Maze_Create_fits_int:
  "Maze_Create a1 a2 w h cs = Some m \<Longrightarrow> w * h \<le> INT_MAX \<Longrightarrow> fits_int m"
  by (drule Maze_Create_Some) (auto simp: fits_int_def)

lemma Maze_Create_frame:
  assumes "Maze_Create a1 a2 w h cs = Some m"
  shows "width m = w" "height m = h" "cellSize m = cs" "startPos m = (0, 0)"
    "exitPos m = (i2f (w - 1), i2f (h - 1))" "1 \<le> w" "1 \<le> h"
  using assms by (auto simp: Maze_Create_def split: if_splits)

lemma CellIndex_in_grid:
  "in_grid m x y \<Longrightarrow> CellIndex m x y = y * width m + x"
  by (auto simp: CellIndex_def in_grid_def)

lemma CellIndex_out: "\<not> in_grid m x y \<Longrightarrow> CellIndex m x y = - 1"
  by (auto simp: CellIndex_def in_grid_def)

lemma CellIndex_bounds:
  assumes "in_grid m x y"
  shows "0 \<le> CellIndex m x y" and "CellIndex m x y < width m * height m"
proof -
  from assms have b: "0 \<le> x" "x < width m" "0 \<le> y" "y < height m"
    by (auto simp: in_grid_def)
  show "0 \<le> CellIndex m x y"
    using b by (simp add: CellIndex_in_grid [OF assms])
  have "y + 1 \<le> height m" using b by simp
  then have "(y + 1) * width m \<le> height m * width m"
    using b by (intro mult_right_mono) auto
  then show "CellIndex m x y < width m * height m"
    using b by (simp add: CellIndex_in_grid [OF assms] algebra_simps)
qed

text \<open>
  C4 (as amended). \<open>Maze_Create\<close> returns \<open>NULL\<close> exactly when \<open>width < 1\<close>, \<open>height < 1\<close>,
  \<open>cellSize \<le> 0\<close> or one of its two allocations fails. A maze that is returned carries the
  requested dimensions and cell size, the start at \<open>(0, 0)\<close> and as exit the pair
  \<open>(width - 1, height - 1)\<close> converted to \<open>float\<close>, which is that pair itself when
  \<open>width\<close> and \<open>height\<close> are at most \<open>2^24 + 1\<close>. When the number of cells
  \<open>width * height\<close> is in the range of \<open>int\<close>, the maze has one cell byte per cell and all
  four walls on every cell.
\<close>

theorem Maze_Create_null_iff_fully_initialized:
  "(Maze_Create malloc_ok calloc_ok w h cs = None \<longleftrightarrow>
      (w < 1 \<or> h < 1 \<or> cs \<le> 0 \<or> \<not> malloc_ok \<or> \<not> calloc_ok)) \<and>
   (\<forall>m. Maze_Create malloc_ok calloc_ok w h cs = Some m \<longrightarrow>
      width m = w \<and> height m = h \<and> cellSize m = cs \<and>
      startPos m = (0, 0) \<and> exitPos m = (i2f (w - 1), i2f (h - 1)) \<and>
      (w \<le> 16777217 \<and> h \<le> 16777217 \<longrightarrow>
         exitPos m = (of_int (w - 1), of_int (h - 1))) \<and>
      (w * h \<le> INT_MAX \<longrightarrow>
         length (cells m) = nat (w * h) \<and>
         (\<forall>i < length (cells m). cells m ! i = word_of_int MAZE_ALL) \<and>
         (\<forall>x y. in_grid m x y \<longrightarrow>
            Maze_HasWall m x y MAZE_NORTH \<and> Maze_HasWall m x y MAZE_EAST \<and>
            Maze_HasWall m x y MAZE_SOUTH \<and> Maze_HasWall m x y MAZE_WEST)))"
proof -
  have null: "Maze_Create malloc_ok calloc_ok w h cs = None \<longleftrightarrow>
      (w < 1 \<or> h < 1 \<or> cs \<le> 0 \<or> \<not> malloc_ok \<or> \<not> calloc_ok)"
    by (simp add: Maze_Create_def)
  have frame: "width m = w \<and> height m = h \<and> cellSize m = cs \<and>
      startPos m = (0, 0) \<and> exitPos m = (i2f (w - 1), i2f (h - 1)) \<and>
      (w \<le> 16777217 \<and> h \<le> 16777217 \<longrightarrow>
         exitPos m = (of_int (w - 1), of_int (h - 1)))"
    if c: "Maze_Create malloc_ok calloc_ok w h cs = Some m" for m
  proof -
    note f = Maze_Create_frame [OF c]
    have "i2f (w - 1) = of_int (w - 1)" if "w \<le> 16777217"
      using that f(6) by (intro i2f_exact) simp
    moreover have "i2f (h - 1) = of_int (h - 1)" if "h \<le> 16777217"
      using that f(7) by (intro i2f_exact) simp
    ultimately show ?thesis using f by simp
  qed
  have init: "length (cells m) = nat (w * h) \<and>
      (\<forall>i < length (cells m). cells m ! i = word_of_int MAZE_ALL) \<and>
      (\<forall>x y. in_grid m x y \<longrightarrow>
         Maze_HasWall m x y MAZE_NORTH \<and> Maze_HasWall m x y MAZE_EAST \<and>
         Maze_HasWall m x y MAZE_SOUTH \<and> Maze_HasWall m x y MAZE_WEST)"
    if c: "Maze_Create malloc_ok calloc_ok w h cs = Some m" and fit: "w * h \<le> INT_MAX" for m
  proof -
    note s = Maze_Create_Some [OF c fit]
    have w: "width m = w" "height m = h" and cm: "cells m = replicate (nat (w * h)) 15"
      using s by auto
    have walls: "Maze_HasWall m x y MAZE_NORTH \<and> Maze_HasWall m x y MAZE_EAST \<and>
         Maze_HasWall m x y MAZE_SOUTH \<and> Maze_HasWall m x y MAZE_WEST"
      if g: "in_grid m x y" for x y
    proof -
      have "nat (CellIndex m x y) < nat (w * h)"
        using CellIndex_bounds [OF g] w by simp
      then have "cells m ! nat (CellIndex m x y) = 15"
        by (simp add: cm)
      then show ?thesis
        using CellIndex_bounds(1) [OF g]
        by (simp add: Maze_HasWall_def Let_def MAZE_NORTH_def MAZE_EAST_def
            MAZE_SOUTH_def MAZE_WEST_def)
    qed
    have "\<forall>i < length (cells m). cells m ! i = word_of_int MAZE_ALL"
      using s by (auto simp: MAZE_ALL_def)
    moreover have "length (cells m) = nat (w * h)"
      using s by auto
    ultimately show ?thesis using walls by blast
  qed
  from null frame init show ?thesis by blast
qed

theorem Maze_Create_null_iff_fully_initialized_witness:
  "Maze_Create True True 2 3 1 \<noteq> None \<and>
   Maze_Create True False 2 3 1 = None \<and>
   Maze_Create True True 0 3 1 = None \<and>
   (\<exists>m. Maze_Create True True 2 3 1 = Some m \<and> length (cells m) = 6 \<and>
        in_grid m 1 2 \<and> Maze_HasWall m 1 2 MAZE_EAST \<and> exitPos m = (1, 2))"
proof -
  have n: "Maze_Create True True 2 3 1 \<noteq> None"
    using Maze_Create_null_iff_fully_initialized [of True True 2 3 1] by simp
  then obtain m where m: "Maze_Create True True 2 3 1 = Some m" by blast
  have f: "width m = 2 \<and> height m = 3 \<and> length (cells m) = 6 \<and>
      (in_grid m 1 2 \<longrightarrow> Maze_HasWall m 1 2 MAZE_EAST) \<and> exitPos m = (1, 2)"
    using Maze_Create_null_iff_fully_initialized [of True True 2 3 1] m
    by (simp add: INT_MAX_def)
  then have g: "in_grid m 1 2" by (simp add: in_grid_def)
  have "Maze_Create True False 2 3 1 = None"
    using Maze_Create_null_iff_fully_initialized [of True False 2 3 1] by simp
  moreover have "Maze_Create True True 0 3 1 = None"
    using Maze_Create_null_iff_fully_initialized [of True True 0 3 1] by simp
  ultimately show ?thesis using n m f g by simp
qed

text \<open>
  The claim C4 as stated promises all walls on all \<open>width * height\<close> cells and the exit
  \<open>(width - 1, height - 1)\<close> for every maze returned. For \<open>width = height = 65536\<close> the
  \<open>int\<close> product is 0: \<open>calloc(0, 1)\<close> succeeds, the loop does not run, and the maze returned
  has no cell storage. For \<open>width = 16777218\<close> the exit column \<open>16777217\<close> is not a
  \<open>float\<close> and is stored as \<open>16777216\<close>.
\<close>

theorem Maze_Create_overflow_counterexample:
  "Maze_Create True True 65536 65536 1 =
     Some \<lparr>width = 65536, height = 65536, cells = [], cellSize = 1,
           startPos = (0, 0), exitPos = (65535, 65535)\<rparr> \<and>
   Maze_Create True True 16777218 1 1 =
     Some \<lparr>width = 16777218, height = 1, cells = replicate 16777218 15, cellSize = 1,
           startPos = (0, 0), exitPos = (16777216, 0)\<rparr>"
proof -
  have a: "i2f 65535 = 65535" "i2f 0 = 0"
    using i2f_exact [of 65535] i2f_exact [of 0] by simp_all
  have "fl32 16777217 = of_int (rne (16777217 / 2 powi (24 - 23))) * 2 powi (24 - 23)"
    by (rule fl32_eval) simp_all
  also have "\<dots> = 16777216" by (simp add: rne_def)
  finally have b: "i2f 16777217 = 16777216" by (simp add: i2f_def)
  have 1: "Maze_Create True True 65536 65536 1 =
     Some \<lparr>width = 65536, height = 65536, cells = [], cellSize = 1,
           startPos = (0, 0), exitPos = (65535, 65535)\<rparr>"
    by (simp add: Maze_Create_def wrap32_def init_all_walls_def a)
  have 2: "Maze_Create True True 16777218 1 1 =
     Some \<lparr>width = 16777218, height = 1, cells = replicate 16777218 15, cellSize = 1,
           startPos = (0, 0), exitPos = (16777216, 0)\<rparr>"
    using init_all_walls_replicate [of 16777218]
    by (simp add: Maze_Create_def wrap32_def a b)
  from 1 2 show ?thesis by simp
qed

section \<open>Wall bits, cell indices and the shuffle\<close>

definition wall_bit :: "Maze \<Rightarrow> int \<Rightarrow> int \<Rightarrow> nat \<Rightarrow> bool" where
  "wall_bit m x y k = bit (cells m ! nat (CellIndex m x y)) k"

lemma uint_and_bit:
  "k < 8 \<Longrightarrow> (uint (c :: 8 word) AND 2 ^ k \<noteq> 0) = bit c k"
  using and_exp_eq_0_iff_not_bit [of "uint c" k] by (simp add: bit_uint_iff)

lemma HasWall_wall_bit:
  assumes "in_grid m x y"
  shows "Maze_HasWall m x y MAZE_NORTH = wall_bit m x y 0"
    and "Maze_HasWall m x y MAZE_EAST = wall_bit m x y 1"
    and "Maze_HasWall m x y MAZE_SOUTH = wall_bit m x y 2"
    and "Maze_HasWall m x y MAZE_WEST = wall_bit m x y 3"
  using CellIndex_bounds(1) [OF assms] uint_and_bit [of 0] uint_and_bit [of 1]
    uint_and_bit [of 2] uint_and_bit [of 3]
  by (simp_all add: Maze_HasWall_def wall_bit_def Let_def MAZE_NORTH_def MAZE_EAST_def
      MAZE_SOUTH_def MAZE_WEST_def)

lemma bit_clear_wall:
  "k < 8 \<Longrightarrow> bit (clear_wall c (2 ^ j)) k = (bit c k \<and> k \<noteq> j)"
  by (auto simp: clear_wall_def bit_simps)

lemma CellIndex_inj:
  assumes "in_grid m x y" and "in_grid m x' y'"
  shows "(nat (CellIndex m x y) = nat (CellIndex m x' y')) = (x = x' \<and> y = y')"
proof -
  from assms have b: "0 \<le> x" "x < width m" "0 \<le> y" "0 \<le> x'" "x' < width m" "0 \<le> y'"
    by (auto simp: in_grid_def)
  have lt: "a * width m + c < a' * width m + c'"
    if "a < a'" "0 \<le> c'" "c < width m" for a a' c c' :: int
  proof -
    have "(a + 1) * width m \<le> a' * width m"
      using that b by (intro mult_right_mono) auto
    then show ?thesis using that by (simp add: algebra_simps)
  qed
  have "(y * width m + x = y' * width m + x') = (x = x' \<and> y = y')"
    using lt [where a=y and a'=y' and c=x and c'=x'] lt [where a=y' and a'=y and c=x' and c'=x] b
    by (cases "y < y'"; cases "y' < y") auto
  moreover have "0 \<le> y * width m + x" "0 \<le> y' * width m + x'"
    using CellIndex_bounds(1) [OF assms(1)] CellIndex_bounds(1) [OF assms(2)]
    by (simp_all add: CellIndex_in_grid assms)
  ultimately show ?thesis
    by (simp add: CellIndex_in_grid assms eq_nat_nat_iff)
qed

lemma CellIndex_nat_less:
  "in_grid m x y \<Longrightarrow> nat (CellIndex m x y) < nat (width m * height m)"
  using CellIndex_bounds [of m x y] by simp

subsection \<open>The list of all cells\<close>

lemma set_all_cells: "set (all_cells m) = {(x, y). in_grid m x y}"
  by (auto simp: all_cells_def in_grid_def)

lemma distinct_rows:
  "distinct xs \<Longrightarrow> distinct ys \<Longrightarrow>
     distinct (concat (map (\<lambda>y. map (\<lambda>x. (x, y)) xs) ys))"
  by (induction ys) (auto simp: distinct_map inj_on_def)

lemma distinct_all_cells: "distinct (all_cells m)"
  unfolding all_cells_def by (rule distinct_rows) simp_all

lemma length_all_cells: "length (all_cells m) = nat (width m) * nat (height m)"
  by (simp add: all_cells_def length_concat comp_def sum_list_triv mult.commute)

subsection \<open>The shuffle\<close>

lemma swap_at_length [simp]: "length (swap_at xs i j) = length xs"
  by (simp add: swap_at_def Let_def)

lemma swap_at_set: "i < length xs \<Longrightarrow> j < length xs \<Longrightarrow> set (swap_at xs i j) = set xs"
  using set_swap [of j xs i] by (simp add: swap_at_def Let_def)

lemma swap_at_zip:
  "length xs = length ys \<Longrightarrow> i < length xs \<Longrightarrow> j < length xs \<Longrightarrow>
     zip (swap_at xs i j) (swap_at ys i j) = swap_at (zip xs ys) i j"
  by (simp add: swap_at_def Let_def zip_update)

lemma shuffle_dirs_zip:
  assumes "shuffle_dirs rnd k i (dirs, dx, dy) = (dirs', dx', dy')"
    and "length dirs = n" "length dx = n" "length dy = n" "i < n"
  shows "length dirs' = n \<and> length dx' = n \<and> length dy' = n \<and>
         set (zip dirs' (zip dx' dy')) = set (zip dirs (zip dx dy))"
  using assms
proof (induction i arbitrary: k dirs dx dy)
  case 0
  then show ?case by simp
next
  case (Suc i)
  let ?j = "rnd k mod (Suc i + 1)"
  have j: "?j < n" using Suc.prems(5) by (simp add: less_le_trans [OF mod_less_divisor])
  have "shuffle_dirs rnd (k + 1) i (swap_at dirs (Suc i) ?j, swap_at dx (Suc i) ?j, swap_at dy (Suc i) ?j)
          = (dirs', dx', dy')"
    using Suc.prems(1) by (simp add: Let_def)
  from Suc.IH [OF this] Suc.prems(2-5)
  have "length dirs' = n \<and> length dx' = n \<and> length dy' = n \<and>
      set (zip dirs' (zip dx' dy')) =
      set (zip (swap_at dirs (Suc i) ?j) (zip (swap_at dx (Suc i) ?j) (swap_at dy (Suc i) ?j)))"
    by simp
  moreover have "set (zip (swap_at dirs (Suc i) ?j) (zip (swap_at dx (Suc i) ?j) (swap_at dy (Suc i) ?j)))
      = set (zip dirs (zip dx dy))"
    using Suc.prems(2-5) j by (simp add: swap_at_zip swap_at_set)
  ultimately show ?case by simp
qed

text \<open>The four directions: index, bit, offset.\<close>

lemma four_cases: "i < 4 \<Longrightarrow> i = 0 \<or> i = 1 \<or> i = 2 \<or> i = (3::nat)"
  by arith

lemma dirs4_nth: "i < 4 \<Longrightarrow> dirs4 ! i = 2 ^ i"
  by (drule four_cases)
    (auto simp: dirs4_def MAZE_NORTH_def MAZE_EAST_def MAZE_SOUTH_def MAZE_WEST_def)

lemma oppositeDir_nth: "i < 4 \<Longrightarrow> oppositeDir ! i = 2 ^ ((i + 2) mod 4)"
  by (drule four_cases)
    (auto simp: oppositeDir_def MAZE_NORTH_def MAZE_EAST_def MAZE_SOUTH_def MAZE_WEST_def)

lemma find_dirIdx:
  "i < 4 \<Longrightarrow> (case find (\<lambda>j. dirs4 ! j = dirs4 ! i) [0..<4] of Some j \<Rightarrow> j | None \<Rightarrow> 0) = i"
  by (drule four_cases)
    (auto simp: dirs4_def MAZE_NORTH_def MAZE_EAST_def MAZE_SOUTH_def MAZE_WEST_def upt_rec)

lemma dir_table:
  "((d, a, b) \<in> set (zip dirs4 (zip dx4 dy4))) =
     (\<exists>i < 4. d = dirs4 ! i \<and> a = dx4 ! i \<and> b = dy4 ! i)"
proof -
  have "length dirs4 = 4" "length dx4 = 4" "length dy4 = 4"
    by (simp_all add: dirs4_def dx4_def dy4_def)
  then show ?thesis by (auto simp: in_set_zip)
qed

lemma shuffled_table:
  assumes sh: "shuffle_dirs rnd k 3 (dirs4, dx4, dy4) = (dirs, dx, dy)"
  shows "(\<forall>i < 4. \<exists>j < 4. dirs ! i = dirs4 ! j \<and> dx ! i = dx4 ! j \<and> dy ! i = dy4 ! j) \<and>
         (\<forall>j < 4. \<exists>i < 4. dirs ! i = dirs4 ! j \<and> dx ! i = dx4 ! j \<and> dy ! i = dy4 ! j)"
proof -
  from shuffle_dirs_zip [OF sh, of 4]
  have len: "length dirs = 4" "length dx = 4" "length dy = 4"
    and st: "set (zip dirs (zip dx dy)) = set (zip dirs4 (zip dx4 dy4))"
    by (simp_all add: dirs4_def dx4_def dy4_def)
  have a: "\<exists>j < 4. dirs ! i = dirs4 ! j \<and> dx ! i = dx4 ! j \<and> dy ! i = dy4 ! j" if "i < 4" for i
  proof -
    have "(dirs ! i, dx ! i, dy ! i) \<in> set (zip dirs (zip dx dy))"
      using that len by (auto simp: in_set_zip)
    then show ?thesis by (simp add: st dir_table)
  qed
  have b: "\<exists>i < 4. dirs ! i = dirs4 ! j \<and> dx ! i = dx4 ! j \<and> dy ! i = dy4 ! j" if "j < 4" for j
  proof -
    have "(dirs4 ! j, dx4 ! j, dy4 ! j) \<in> set (zip dirs (zip dx dy))"
      unfolding st dir_table using that by blast
    then show ?thesis using len by (auto simp: in_set_zip)
  qed
  from a b show ?thesis by blast
qed

lemma GetRandomNeighbor_Some:
  assumes "GetRandomNeighbor rnd k m x y visited = Some dir"
  shows "\<exists>i < 4. dir = dirs4 ! i \<and> IsValidUnvisited m (x + dx4 ! i) (y + dy4 ! i) visited"
proof -
  obtain dirs dx dy where sh: "shuffle_dirs rnd k 3 (dirs4, dx4, dy4) = (dirs, dx, dy)"
    by (metis prod_cases3)
  from assms sh obtain i where
    f: "find (\<lambda>i. IsValidUnvisited m (x + dx ! i) (y + dy ! i) visited) [0..<4] = Some i"
    and d: "dir = dirs ! i"
    by (auto simp: GetRandomNeighbor_def split: option.splits)
  from f have i: "i < 4" and v: "IsValidUnvisited m (x + dx ! i) (y + dy ! i) visited"
    by (auto simp: find_Some_iff)
  from shuffled_table [OF sh] i obtain j where
    "j < 4" "dirs ! i = dirs4 ! j" "dx ! i = dx4 ! j" "dy ! i = dy4 ! j"
    by blast
  then show ?thesis using v d by auto
qed

lemma GetRandomNeighbor_None:
  assumes "GetRandomNeighbor rnd k m x y visited = None" and "i < 4"
  shows "\<not> IsValidUnvisited m (x + dx4 ! i) (y + dy4 ! i) visited"
proof -
  obtain dirs dx dy where sh: "shuffle_dirs rnd k 3 (dirs4, dx4, dy4) = (dirs, dx, dy)"
    by (metis prod_cases3)
  from assms sh have
    f: "find (\<lambda>i. IsValidUnvisited m (x + dx ! i) (y + dy ! i) visited) [0..<4] = None"
    by (auto simp: GetRandomNeighbor_def split: option.splits)
  from shuffled_table [OF sh] assms(2) obtain j where
    "j < 4" "dx ! j = dx4 ! i" "dy ! j = dy4 ! i"
    by blast
  then show ?thesis using f by (auto simp: find_None_iff)
qed

section \<open>Invariants of the generation loop\<close>

subsection \<open>Carving one passage\<close>

definition carve :: "Maze \<Rightarrow> int \<Rightarrow> int \<Rightarrow> nat \<Rightarrow> Maze" where
  "carve m x y i =
     (let ci = nat (CellIndex m x y);
          ni = nat (CellIndex m (x + dx4 ! i) (y + dy4 ! i));
          c1 = (cells m)[ci := clear_wall (cells m ! ci) (dirs4 ! i)]
      in m\<lparr> cells := c1[ni := clear_wall (c1 ! ni) (oppositeDir ! i)] \<rparr>)"

lemma carve_simps [simp]:
  "width (carve m x y i) = width m" "height (carve m x y i) = height m"
  "cellSize (carve m x y i) = cellSize m" "length (cells (carve m x y i)) = length (cells m)"
  "in_grid (carve m x y i) = in_grid m" "CellIndex (carve m x y i) = CellIndex m"
  "startPos (carve m x y i) = startPos m" "exitPos (carve m x y i) = exitPos m"
  by (simp_all add: carve_def Let_def in_grid_def CellIndex_def fun_eq_iff)

lemma maze_ok_carve [simp]: "maze_ok (carve m x y i) = maze_ok m"
  by (simp add: maze_ok_def)

lemma offsets:
  "dx4 ! 0 = 0" "dy4 ! 0 = - 1" "dx4 ! 1 = 1" "dy4 ! 1 = 0"
  "dx4 ! 2 = 0" "dy4 ! 2 = 1" "dx4 ! 3 = - 1" "dy4 ! 3 = 0"
  "dx4 ! Suc 0 = 1" "dy4 ! Suc 0 = 0"
  by (simp_all add: dx4_def dy4_def)

lemma carve_wall_bit:
  assumes ok: "maze_ok m" and i: "i < 4"
    and c: "in_grid m x y" and n: "in_grid m (x + dx4 ! i) (y + dy4 ! i)"
    and ab: "in_grid m a b" and k: "k < 4"
  shows "wall_bit (carve m x y i) a b k =
           (wall_bit m a b k \<and> \<not> (a = x \<and> b = y \<and> k = i) \<and>
            \<not> (a = x + dx4 ! i \<and> b = y + dy4 ! i \<and> k = (i + 2) mod 4))"
proof -
  let ?ci = "nat (CellIndex m x y)"
  let ?ni = "nat (CellIndex m (x + dx4 ! i) (y + dy4 ! i))"
  let ?ai = "nat (CellIndex m a b)"
  have l: "length (cells m) = nat (width m * height m)"
    using ok by (simp add: maze_ok_def)
  have len: "?ci < length (cells m)" "?ni < length (cells m)" "?ai < length (cells m)"
    unfolding l by (rule CellIndex_nat_less, fact)+
  have ne: "?ci \<noteq> ?ni"
    using four_cases [OF i] by (auto simp: CellIndex_inj [OF c n] offsets)
  have e1: "(?ai = ?ci) = (a = x \<and> b = y)" by (rule CellIndex_inj [OF ab c])
  have e2: "(?ai = ?ni) = (a = x + dx4 ! i \<and> b = y + dy4 ! i)" by (rule CellIndex_inj [OF ab n])
  have k8: "k < 8" using k by simp
  let ?c1 = "(cells m)[?ci := clear_wall (cells m ! ?ci) (2 ^ i)]"
  let ?c2 = "?c1[?ni := clear_wall (?c1 ! ?ni) (2 ^ ((i + 2) mod 4))]"
  have cv: "cells (carve m x y i) = ?c2"
    by (simp add: carve_def Let_def dirs4_nth [OF i] oppositeDir_nth [OF i])
  have wb: "wall_bit (carve m x y i) a b k = bit (?c2 ! ?ai) k"
    by (simp add: wall_bit_def cv)
  consider (cur) "a = x" "b = y" | (nxt) "a = x + dx4 ! i" "b = y + dy4 ! i"
    | (other) "?ai \<noteq> ?ci" "?ai \<noteq> ?ni"
    using e1 e2 by blast
  then show ?thesis
  proof cases
    case cur
    then have "?ai = ?ci" by simp
    then have "?c2 ! ?ai = clear_wall (cells m ! ?ci) (2 ^ i)"
      using ne len by simp
    moreover have "\<not> (a = x + dx4 ! i \<and> b = y + dy4 ! i)"
      using ne e2 \<open>?ai = ?ci\<close> by simp
    ultimately show ?thesis
      unfolding wb using cur k8 by (auto simp: bit_clear_wall wall_bit_def)
  next
    case nxt
    then have eq: "?ai = ?ni" by simp
    then have "?c2 ! ?ai = clear_wall (cells m ! ?ni) (2 ^ ((i + 2) mod 4))"
      using ne len by simp
    moreover have "\<not> (a = x \<and> b = y)"
      using ne e1 eq by simp
    ultimately show ?thesis
      unfolding wb using nxt k8 by (auto simp: bit_clear_wall wall_bit_def)
  next
    case other
    then have "?c2 ! ?ai = cells m ! ?ai" by simp
    moreover have "\<not> (a = x \<and> b = y)" "\<not> (a = x + dx4 ! i \<and> b = y + dy4 ! i)"
      using other e1 e2 by simp_all
    ultimately show ?thesis
      unfolding wb by (auto simp: wall_bit_def)
  qed
qed

lemma open_east_bits:
  "open_east m x y =
     (in_grid m x y \<and> in_grid m (x + 1) y \<and> \<not> wall_bit m x y 1 \<and> \<not> wall_bit m (x + 1) y 3)"
  by (auto simp: open_east_def HasWall_wall_bit)

lemma open_south_bits:
  "open_south m x y =
     (in_grid m x y \<and> in_grid m x (y + 1) \<and> \<not> wall_bit m x y 2 \<and> \<not> wall_bit m x (y + 1) 0)"
  by (auto simp: open_south_def HasWall_wall_bit)

lemma walls_symmetric_bits:
  "walls_symmetric m =
     (\<forall>x y. in_grid m x y \<longrightarrow>
        (in_grid m (x + 1) y \<longrightarrow> wall_bit m x y 1 = wall_bit m (x + 1) y 3) \<and>
        (in_grid m x (y + 1) \<longrightarrow> wall_bit m x y 2 = wall_bit m x (y + 1) 0))"
  by (auto simp: walls_symmetric_def set_all_cells HasWall_wall_bit)

lemma mod4: "(0 + 2) mod 4 = (2::nat)" "(1 + 2) mod 4 = (3::nat)" "(2 + 2) mod 4 = (0::nat)"
  "(3 + 2) mod 4 = (1::nat)"
  by simp_all

lemma carve_east_pair:
  assumes "maze_ok m" "i < 4" "in_grid m x y" "in_grid m (x + dx4 ! i) (y + dy4 ! i)"
    and g: "in_grid m a b" "in_grid m (a + 1) b"
    and s: "wall_bit m a b 1 = wall_bit m (a + 1) b 3"
  shows "wall_bit (carve m x y i) a b 1 =
           (wall_bit m a b 1 \<and> \<not> (i = 1 \<and> a = x \<and> b = y) \<and> \<not> (i = 3 \<and> a = x - 1 \<and> b = y))"
    and "wall_bit (carve m x y i) (a + 1) b 3 =
           (wall_bit m a b 1 \<and> \<not> (i = 1 \<and> a = x \<and> b = y) \<and> \<not> (i = 3 \<and> a = x - 1 \<and> b = y))"
proof -
  note b1 = carve_wall_bit [OF assms(1-4) g(1), of 1]
  note b3 = carve_wall_bit [OF assms(1-4) g(2), of 3]
  from four_cases [OF assms(2)]
  consider "i = 0" | "i = 1" | "i = 2" | "i = 3" by blast
  then show "wall_bit (carve m x y i) a b 1 =
           (wall_bit m a b 1 \<and> \<not> (i = 1 \<and> a = x \<and> b = y) \<and> \<not> (i = 3 \<and> a = x - 1 \<and> b = y))"
    using b1 by cases (auto simp: offsets)
  from four_cases [OF assms(2)]
  consider "i = 0" | "i = 1" | "i = 2" | "i = 3" by blast
  then show "wall_bit (carve m x y i) (a + 1) b 3 =
           (wall_bit m a b 1 \<and> \<not> (i = 1 \<and> a = x \<and> b = y) \<and> \<not> (i = 3 \<and> a = x - 1 \<and> b = y))"
    using b3 s by cases (auto simp: offsets)
qed

lemma carve_south_pair:
  assumes "maze_ok m" "i < 4" "in_grid m x y" "in_grid m (x + dx4 ! i) (y + dy4 ! i)"
    and g: "in_grid m a b" "in_grid m a (b + 1)"
    and s: "wall_bit m a b 2 = wall_bit m a (b + 1) 0"
  shows "wall_bit (carve m x y i) a b 2 =
           (wall_bit m a b 2 \<and> \<not> (i = 2 \<and> a = x \<and> b = y) \<and> \<not> (i = 0 \<and> a = x \<and> b = y - 1))"
    and "wall_bit (carve m x y i) a (b + 1) 0 =
           (wall_bit m a b 2 \<and> \<not> (i = 2 \<and> a = x \<and> b = y) \<and> \<not> (i = 0 \<and> a = x \<and> b = y - 1))"
proof -
  note b2 = carve_wall_bit [OF assms(1-4) g(1), of 2]
  note b0 = carve_wall_bit [OF assms(1-4) g(2), of 0]
  from four_cases [OF assms(2)]
  consider "i = 0" | "i = 1" | "i = 2" | "i = 3" by blast
  then show "wall_bit (carve m x y i) a b 2 =
           (wall_bit m a b 2 \<and> \<not> (i = 2 \<and> a = x \<and> b = y) \<and> \<not> (i = 0 \<and> a = x \<and> b = y - 1))"
    using b2 by cases (auto simp: offsets)
  from four_cases [OF assms(2)]
  consider "i = 0" | "i = 1" | "i = 2" | "i = 3" by blast
  then show "wall_bit (carve m x y i) a (b + 1) 0 =
           (wall_bit m a b 2 \<and> \<not> (i = 2 \<and> a = x \<and> b = y) \<and> \<not> (i = 0 \<and> a = x \<and> b = y - 1))"
    using b0 s by cases (auto simp: offsets)
qed

lemma carve_open_east:
  assumes "maze_ok m" "i < 4" "in_grid m x y" "in_grid m (x + dx4 ! i) (y + dy4 ! i)"
    and sym: "walls_symmetric m"
  shows "open_east (carve m x y i) a b =
           (open_east m a b \<or> (i = 1 \<and> a = x \<and> b = y) \<or> (i = 3 \<and> a = x - 1 \<and> b = y))"
proof (cases "in_grid m a b \<and> in_grid m (a + 1) b")
  case False
  have "\<not> (i = 1 \<and> a = x \<and> b = y)" "\<not> (i = 3 \<and> a = x - 1 \<and> b = y)"
    using False assms(3,4) by (auto simp: offsets)
  then show ?thesis
    using False by (auto simp: open_east_bits)
next
  case True
  then have g: "in_grid m a b" "in_grid m (a + 1) b" by auto
  have s: "wall_bit m a b 1 = wall_bit m (a + 1) b 3"
    using sym g by (simp add: walls_symmetric_bits)
  show ?thesis
    unfolding open_east_bits carve_simps carve_east_pair [OF assms(1-4) g s]
    using g s by blast
qed

lemma carve_open_south:
  assumes "maze_ok m" "i < 4" "in_grid m x y" "in_grid m (x + dx4 ! i) (y + dy4 ! i)"
    and sym: "walls_symmetric m"
  shows "open_south (carve m x y i) a b =
           (open_south m a b \<or> (i = 2 \<and> a = x \<and> b = y) \<or> (i = 0 \<and> a = x \<and> b = y - 1))"
proof (cases "in_grid m a b \<and> in_grid m a (b + 1)")
  case False
  have "\<not> (i = 2 \<and> a = x \<and> b = y)" "\<not> (i = 0 \<and> a = x \<and> b = y - 1)"
    using False assms(3,4) by (auto simp: offsets)
  then show ?thesis
    using False by (auto simp: open_south_bits)
next
  case True
  then have g: "in_grid m a b" "in_grid m a (b + 1)" by auto
  have s: "wall_bit m a b 2 = wall_bit m a (b + 1) 0"
    using sym g by (simp add: walls_symmetric_bits)
  show ?thesis
    unfolding open_south_bits carve_simps carve_south_pair [OF assms(1-4) g s]
    using g s by blast
qed

lemma carve_walls_symmetric:
  assumes "maze_ok m" "i < 4" "in_grid m x y" "in_grid m (x + dx4 ! i) (y + dy4 ! i)"
    and sym: "walls_symmetric m"
  shows "walls_symmetric (carve m x y i)"
  unfolding walls_symmetric_bits [of "carve m x y i"] carve_simps
proof (intro allI impI conjI)
  fix a b assume g: "in_grid m a b" "in_grid m (a + 1) b"
  have s: "wall_bit m a b 1 = wall_bit m (a + 1) b 3"
    using sym g by (simp add: walls_symmetric_bits)
  show "wall_bit (carve m x y i) a b 1 = wall_bit (carve m x y i) (a + 1) b 3"
    by (simp only: carve_east_pair [OF assms(1-4) g s])
next
  fix a b assume g: "in_grid m a b" "in_grid m a (b + 1)"
  have s: "wall_bit m a b 2 = wall_bit m a (b + 1) 0"
    using sym g by (simp add: walls_symmetric_bits)
  show "wall_bit (carve m x y i) a b 2 = wall_bit (carve m x y i) a (b + 1) 0"
    by (simp only: carve_south_pair [OF assms(1-4) g s])
qed

lemma passage_sym: "passage m a b \<Longrightarrow> passage m b a"
  by (cases a; cases b) auto

lemma passage_rtrancl_sym: "(passage m)\<^sup>*\<^sup>* a b \<Longrightarrow> (passage m)\<^sup>*\<^sup>* b a"
  by (induction rule: rtranclp_induct) (auto intro: converse_rtranclp_into_rtranclp passage_sym)

lemma carve_passage_mono:
  assumes "maze_ok m" "i < 4" "in_grid m x y" "in_grid m (x + dx4 ! i) (y + dy4 ! i)"
    and sym: "walls_symmetric m"
  shows "passage m p q \<Longrightarrow> passage (carve m x y i) p q"
  by (cases p; cases q) (auto simp: carve_open_east [OF assms] carve_open_south [OF assms])

lemma carve_passage_new:
  assumes "maze_ok m" "i < 4" "in_grid m x y" "in_grid m (x + dx4 ! i) (y + dy4 ! i)"
    and sym: "walls_symmetric m"
  shows "passage (carve m x y i) (x, y) (x + dx4 ! i, y + dy4 ! i)"
proof -
  from four_cases [OF assms(2)]
  consider "i = 0" | "i = 1" | "i = 2" | "i = 3" by blast
  then show ?thesis
  proof cases
    case 1
    have "open_south (carve m x y i) x (y - 1)"
      unfolding carve_open_south [OF assms] using 1 by simp
    then show ?thesis using 1 by (simp add: offsets)
  next
    case 2
    have "open_east (carve m x y i) x y"
      unfolding carve_open_east [OF assms] using 2 by simp
    then show ?thesis using 2 by (simp add: offsets)
  next
    case 3
    have "open_south (carve m x y i) x y"
      unfolding carve_open_south [OF assms] using 3 by simp
    then show ?thesis using 3 by (simp add: offsets)
  next
    case 4
    have "open_east (carve m x y i) (x - 1) y"
      unfolding carve_open_east [OF assms] using 4 by simp
    then show ?thesis using 4 by (simp add: offsets)
  qed
qed

definition num_visited :: "bool list \<Rightarrow> nat" where
  "num_visited vs = length (filter (\<lambda>b. b) vs)"

definition visited_at :: "Maze \<Rightarrow> bool list \<Rightarrow> int \<Rightarrow> int \<Rightarrow> bool" where
  "visited_at m vs x y = (in_grid m x y \<and> vs ! nat (CellIndex m x y))"

lemma num_visited_update:
  "n < length vs \<Longrightarrow> \<not> vs ! n \<Longrightarrow> num_visited (vs[n := True]) = Suc (num_visited vs)"
  unfolding num_visited_def
proof (induction vs arbitrary: n)
  case Nil
  then show ?case by simp
next
  case (Cons v vs)
  then show ?case by (cases n) auto
qed

lemma num_visited_le: "num_visited vs \<le> length vs"
  by (simp add: num_visited_def)

lemma num_visited_all: "(\<forall>n < length vs. vs ! n) \<Longrightarrow> num_visited vs = length vs"
  unfolding num_visited_def
  by (metis (mono_tags, lifting) filter_True in_set_conv_nth)

lemma num_visited_lt:
  "n < length vs \<Longrightarrow> \<not> vs ! n \<Longrightarrow> num_visited vs < length vs"
  using num_visited_update [of n vs] num_visited_le [of "vs[n := True]"] by simp

lemma num_passages_card:
  "num_passages m = card {(x, y). open_east m x y} + card {(x, y). open_south m x y}"
proof -
  have e: "{p. case p of (x, y) \<Rightarrow> open_east m x y} \<inter> set (all_cells m) = {(x, y). open_east m x y}"
    by (auto simp: set_all_cells open_east_def)
  have s: "{p. case p of (x, y) \<Rightarrow> open_south m x y} \<inter> set (all_cells m) = {(x, y). open_south m x y}"
    by (auto simp: set_all_cells open_south_def)
  show ?thesis
    unfolding num_passages_def
    using distinct_length_filter [OF distinct_all_cells, of "\<lambda>(x, y). open_east m x y" m]
      distinct_length_filter [OF distinct_all_cells, of "\<lambda>(x, y). open_south m x y" m]
    by (simp only: e s)
qed

lemma finite_open:
  "finite {(x, y). open_east m x y}" "finite {(x, y). open_south m x y}"
proof -
  have "{(x, y). open_east m x y} \<subseteq> set (all_cells m)"
    "{(x, y). open_south m x y} \<subseteq> set (all_cells m)"
    by (auto simp: set_all_cells open_east_def open_south_def)
  then show "finite {(x, y). open_east m x y}" "finite {(x, y). open_south m x y}"
    by (auto intro: finite_subset)
qed

lemma carve_num_passages:
  assumes "maze_ok m" "i < 4" "in_grid m x y" "in_grid m (x + dx4 ! i) (y + dy4 ! i)"
    and sym: "walls_symmetric m"
    and closed: "wall_bit m (x + dx4 ! i) (y + dy4 ! i) ((i + 2) mod 4)"
  shows "num_passages (carve m x y i) = Suc (num_passages m)"
proof -
  let ?E = "{(a, b). open_east m a b}" and ?S = "{(a, b). open_south m a b}"
  let ?E' = "{(a, b). open_east (carve m x y i) a b}"
  let ?S' = "{(a, b). open_south (carve m x y i) a b}"
  note a = assms(1-5)
  from four_cases [OF assms(2)]
  consider "i = 0" | "i = 1" | "i = 2" | "i = 3" by blast
  then have "card ?E' + card ?S' = Suc (card ?E + card ?S)"
  proof cases
    case 1
    have "?E' = ?E" unfolding carve_open_east [OF a] using 1 by simp
    moreover have "?S' = insert (x, y - 1) ?S"
      unfolding carve_open_south [OF a] using 1 by auto
    moreover have "(x, y - 1) \<notin> ?S"
      using closed [unfolded 1 mod4] by (simp add: open_south_bits offsets)
    ultimately show ?thesis using finite_open [of m] by simp
  next
    case 2
    have "?S' = ?S" unfolding carve_open_south [OF a] using 2 by simp
    moreover have "?E' = insert (x, y) ?E"
      unfolding carve_open_east [OF a] using 2 by auto
    moreover have "(x, y) \<notin> ?E"
      using closed [unfolded 2 mod4] by (simp add: open_east_bits offsets)
    ultimately show ?thesis using finite_open [of m] by simp
  next
    case 3
    have "?E' = ?E" unfolding carve_open_east [OF a] using 3 by simp
    moreover have "?S' = insert (x, y) ?S"
      unfolding carve_open_south [OF a] using 3 by auto
    moreover have "(x, y) \<notin> ?S"
      using closed [unfolded 3 mod4] by (simp add: open_south_bits offsets)
    ultimately show ?thesis using finite_open [of m] by simp
  next
    case 4
    have "?S' = ?S" unfolding carve_open_south [OF a] using 4 by simp
    moreover have "?E' = insert (x - 1, y) ?E"
      unfolding carve_open_east [OF a] using 4 by auto
    moreover have "(x - 1, y) \<notin> ?E"
      using closed [unfolded 4 mod4] by (simp add: open_east_bits offsets)
    ultimately show ?thesis using finite_open [of m] by simp
  qed
  then show ?thesis by (simp add: num_passages_card)
qed

subsection \<open>One iteration of the loop\<close>

lemma IsValidUnvisited_iff:
  "IsValidUnvisited m a b vs = (in_grid m a b \<and> \<not> vs ! nat (CellIndex m a b))"
proof (cases "in_grid m a b")
  case True
  then show ?thesis
    using CellIndex_bounds(1) [OF True] by (simp add: IsValidUnvisited_def Let_def)
next
  case False
  then show ?thesis by (simp add: IsValidUnvisited_def CellIndex_out)
qed

lemma gen_step_cases:
  assumes st: "g_stack s = (x, y) # rest"
  obtains (pop) "\<forall>i < 4. \<not> IsValidUnvisited (g_maze s) (x + dx4 ! i) (y + dy4 ! i) (g_visited s)"
      "gen_step rnd s = s\<lparr> g_stack := rest, g_calls := g_calls s + 3 \<rparr>"
  | (push) i where "i < 4"
      "IsValidUnvisited (g_maze s) (x + dx4 ! i) (y + dy4 ! i) (g_visited s)"
      "gen_step rnd s =
         s\<lparr> g_maze := carve (g_maze s) x y i,
            g_visited := (g_visited s)[nat (CellIndex (g_maze s) (x + dx4 ! i) (y + dy4 ! i)) := True],
            g_stack := (x + dx4 ! i, y + dy4 ! i) # (x, y) # rest,
            g_calls := g_calls s + 3 \<rparr>"
proof (cases "GetRandomNeighbor rnd (g_calls s) (g_maze s) x y (g_visited s)")
  case None
  have "\<forall>i < 4. \<not> IsValidUnvisited (g_maze s) (x + dx4 ! i) (y + dy4 ! i) (g_visited s)"
    using GetRandomNeighbor_None [OF None] by blast
  moreover have "gen_step rnd s = s\<lparr> g_stack := rest, g_calls := g_calls s + 3 \<rparr>"
    by (simp add: gen_step_def st None)
  ultimately show ?thesis by (rule pop)
next
  case (Some dir)
  from GetRandomNeighbor_Some [OF Some] obtain i where i: "i < 4" "dir = dirs4 ! i"
    and v: "IsValidUnvisited (g_maze s) (x + dx4 ! i) (y + dy4 ! i) (g_visited s)"
    by blast
  have "gen_step rnd s =
         s\<lparr> g_maze := carve (g_maze s) x y i,
            g_visited := (g_visited s)[nat (CellIndex (g_maze s) (x + dx4 ! i) (y + dy4 ! i)) := True],
            g_stack := (x + dx4 ! i, y + dy4 ! i) # (x, y) # rest,
            g_calls := g_calls s + 3 \<rparr>"
    by (simp add: gen_step_def st Some i(2) find_dirIdx [OF i(1)] carve_def Let_def)
  with i(1) v show ?thesis by (rule push)
qed

definition gen_inv :: "gen_state \<Rightarrow> bool" where
  "gen_inv s =
     (maze_ok (g_maze s) \<and>
      length (g_visited s) = nat (width (g_maze s) * height (g_maze s)) \<and>
      (\<forall>(x, y) \<in> set (g_stack s). visited_at (g_maze s) (g_visited s) x y) \<and>
      visited_at (g_maze s) (g_visited s) 0 0 \<and>
      (\<forall>x y k. in_grid (g_maze s) x y \<longrightarrow> \<not> visited_at (g_maze s) (g_visited s) x y \<longrightarrow>
         k < 4 \<longrightarrow> wall_bit (g_maze s) x y k) \<and>
      walls_symmetric (g_maze s) \<and>
      Suc (num_passages (g_maze s)) = num_visited (g_visited s) \<and>
      (\<forall>x y. visited_at (g_maze s) (g_visited s) x y \<longrightarrow>
         (passage (g_maze s))\<^sup>*\<^sup>* (0, 0) (x, y)) \<and>
      (\<forall>x y i. visited_at (g_maze s) (g_visited s) x y \<longrightarrow> (x, y) \<notin> set (g_stack s) \<longrightarrow>
         i < 4 \<longrightarrow> in_grid (g_maze s) (x + dx4 ! i) (y + dy4 ! i) \<longrightarrow>
         visited_at (g_maze s) (g_visited s) (x + dx4 ! i) (y + dy4 ! i)) \<and>
      length (g_stack s) \<le> num_visited (g_visited s))"

definition gen_measure :: "gen_state \<Rightarrow> nat" where
  "gen_measure s =
     2 * (length (g_visited s) - num_visited (g_visited s)) + length (g_stack s)"

lemma gen_step_pop_inv:
  assumes inv: "gen_inv s" and st: "g_stack s = (x, y) # rest"
    and none: "\<forall>i < 4. \<not> IsValidUnvisited (g_maze s) (x + dx4 ! i) (y + dy4 ! i) (g_visited s)"
  shows "gen_inv (s\<lparr> g_stack := rest, g_calls := g_calls s + 3 \<rparr>)"
proof -
  let ?m = "g_maze s" and ?vs = "g_visited s"
  have fin: "visited_at ?m ?vs (a + dx4 ! i) (b + dy4 ! i)"
    if "visited_at ?m ?vs a b" "(a, b) \<notin> set rest" "i < 4" "in_grid ?m (a + dx4 ! i) (b + dy4 ! i)"
    for a b i
  proof (cases "(a, b) = (x, y)")
    case True
    then show ?thesis
      using none that by (auto simp: IsValidUnvisited_iff visited_at_def)
  next
    case False
    then have "(a, b) \<notin> set (g_stack s)" using that st by simp
    then show ?thesis using inv that unfolding gen_inv_def by blast
  qed
  have "(\<forall>(x, y) \<in> set rest. visited_at ?m ?vs x y)"
    using inv st by (simp add: gen_inv_def)
  moreover have "length rest \<le> num_visited ?vs"
    using inv st by (simp add: gen_inv_def)
  ultimately show ?thesis
    using inv fin unfolding gen_inv_def by simp
qed

lemma visited_at_update:
  assumes len: "length vs = nat (width m * height m)" and n: "in_grid m nx ny"
  shows "visited_at (carve m x y i) (vs[nat (CellIndex m nx ny) := True]) a b =
           (visited_at m vs a b \<or> (a = nx \<and> b = ny))"
proof (cases "in_grid m a b")
  case False
  then show ?thesis using n by (auto simp: visited_at_def)
next
  case True
  have "nat (CellIndex m nx ny) < length vs"
    unfolding len by (rule CellIndex_nat_less [OF n])
  then show ?thesis
    using True n CellIndex_inj [OF True n]
    by (auto simp: visited_at_def nth_list_update)
qed

lemma gen_step_push_inv:
  assumes inv: "gen_inv s" and st: "g_stack s = (x, y) # rest" and i: "i < 4"
    and v: "IsValidUnvisited (g_maze s) (x + dx4 ! i) (y + dy4 ! i) (g_visited s)"
  shows "gen_inv
           (s\<lparr> g_maze := carve (g_maze s) x y i,
               g_visited := (g_visited s)[nat (CellIndex (g_maze s) (x + dx4 ! i) (y + dy4 ! i)) := True],
               g_stack := (x + dx4 ! i, y + dy4 ! i) # (x, y) # rest,
               g_calls := g_calls s + 3 \<rparr>)"
proof -
  let ?m = "g_maze s" and ?vs = "g_visited s"
  let ?nx = "x + dx4 ! i" and ?ny = "y + dy4 ! i"
  let ?ni = "nat (CellIndex ?m ?nx ?ny)"
  let ?m' = "carve ?m x y i" and ?vs' = "?vs[?ni := True]"
  have ok: "maze_ok ?m" and len: "length ?vs = nat (width ?m * height ?m)"
    and sym: "walls_symmetric ?m"
    and cnt: "Suc (num_passages ?m) = num_visited ?vs"
    and stk: "\<forall>(a, b) \<in> set (g_stack s). visited_at ?m ?vs a b"
    and org: "visited_at ?m ?vs 0 0"
    and wal: "\<And>a b k. in_grid ?m a b \<Longrightarrow> \<not> visited_at ?m ?vs a b \<Longrightarrow> k < 4 \<Longrightarrow> wall_bit ?m a b k"
    and con: "\<And>a b. visited_at ?m ?vs a b \<Longrightarrow> (passage ?m)\<^sup>*\<^sup>* (0, 0) (a, b)"
    and fin: "\<And>a b j. visited_at ?m ?vs a b \<Longrightarrow> (a, b) \<notin> set (g_stack s) \<Longrightarrow> j < 4 \<Longrightarrow>
                in_grid ?m (a + dx4 ! j) (b + dy4 ! j) \<Longrightarrow>
                visited_at ?m ?vs (a + dx4 ! j) (b + dy4 ! j)"
    and sl: "length (g_stack s) \<le> num_visited ?vs"
    using inv unfolding gen_inv_def by blast+
  have cur: "visited_at ?m ?vs x y" using stk st by simp
  then have cg: "in_grid ?m x y" by (simp add: visited_at_def)
  have ng: "in_grid ?m ?nx ?ny" and nv: "\<not> ?vs ! ?ni"
    using v by (simp_all add: IsValidUnvisited_iff)
  have nnv: "\<not> visited_at ?m ?vs ?nx ?ny" using nv by (simp add: visited_at_def)
  have nil: "?ni < length ?vs" unfolding len by (rule CellIndex_nat_less [OF ng])
  note pre = ok i cg ng sym
  note V = visited_at_update [OF len ng, of x y i]
  have closed: "wall_bit ?m ?nx ?ny ((i + 2) mod 4)"
    by (rule wal [OF ng nnv]) simp
  have mono: "(passage ?m)\<^sup>*\<^sup>* p q \<Longrightarrow> (passage ?m')\<^sup>*\<^sup>* p q" for p q
    by (erule rtranclp_mono [THEN predicate2D, rotated])
      (auto intro: carve_passage_mono [OF pre])
  have 1: "maze_ok ?m'" using ok by simp
  have 2: "length ?vs' = nat (width ?m' * height ?m')" using len by simp
  have 3: "\<forall>(a, b) \<in> set ((?nx, ?ny) # (x, y) # rest). visited_at ?m' ?vs' a b"
    using stk st by (auto simp: V)
  have 4: "visited_at ?m' ?vs' 0 0" using org by (simp add: V)
  have 5: "wall_bit ?m' a b k"
    if "in_grid ?m' a b" "\<not> visited_at ?m' ?vs' a b" "k < 4" for a b k
  proof -
    from that have g: "in_grid ?m a b" and nva: "\<not> visited_at ?m ?vs a b"
      and ne: "\<not> (a = ?nx \<and> b = ?ny)"
      by (simp_all add: V)
    have "\<not> (a = x \<and> b = y)" using nva cur by auto
    then show ?thesis
      using carve_wall_bit [OF ok i cg ng g that(3)] wal [OF g nva that(3)] ne by blast
  qed
  have 6: "walls_symmetric ?m'" by (rule carve_walls_symmetric [OF pre])
  have 7: "Suc (num_passages ?m') = num_visited ?vs'"
    using carve_num_passages [OF pre closed] num_visited_update [OF nil nv] cnt by simp
  have 8: "(passage ?m')\<^sup>*\<^sup>* (0, 0) (a, b)" if "visited_at ?m' ?vs' a b" for a b
  proof (cases "visited_at ?m ?vs a b")
    case True
    then show ?thesis by (intro mono con)
  next
    case False
    then have ab: "a = ?nx" "b = ?ny" using that by (simp_all add: V)
    have "(passage ?m')\<^sup>*\<^sup>* (0, 0) (x, y)" by (intro mono con cur)
    moreover have "passage ?m' (x, y) (?nx, ?ny)" by (rule carve_passage_new [OF pre])
    ultimately show ?thesis unfolding ab by (rule rtranclp.rtrancl_into_rtrancl)
  qed
  have 9: "visited_at ?m' ?vs' (a + dx4 ! j) (b + dy4 ! j)"
    if "visited_at ?m' ?vs' a b" "(a, b) \<notin> set ((?nx, ?ny) # (x, y) # rest)" "j < 4"
      "in_grid ?m' (a + dx4 ! j) (b + dy4 ! j)" for a b j
  proof -
    from that have "visited_at ?m ?vs a b" "(a, b) \<notin> set (g_stack s)"
      "in_grid ?m (a + dx4 ! j) (b + dy4 ! j)"
      by (auto simp: V st)
    from fin [OF this(1,2) that(3) this(3)] show ?thesis by (simp add: V)
  qed
  have 10: "length ((?nx, ?ny) # (x, y) # rest) \<le> num_visited ?vs'"
    using sl st num_visited_update [OF nil nv] by simp
  show ?thesis
    unfolding gen_inv_def
    using 1 2 3 4 5 6 7 8 9 10 by simp
qed

lemma gen_step_inv:
  assumes "gen_inv s" and "g_stack s \<noteq> []"
  shows "gen_inv (gen_step rnd s) \<and> gen_measure (gen_step rnd s) < gen_measure s"
proof -
  from assms(2) obtain x y rest where st: "g_stack s = (x, y) # rest"
    by (cases "g_stack s") auto
  from st show ?thesis
  proof (cases rule: gen_step_cases [where rnd = rnd])
    case pop
    then show ?thesis
      using gen_step_pop_inv [OF assms(1) st pop(1)]
      by (simp add: gen_measure_def st)
  next
    case (push i)
    let ?ni = "nat (CellIndex (g_maze s) (x + dx4 ! i) (y + dy4 ! i))"
    have len: "length (g_visited s) = nat (width (g_maze s) * height (g_maze s))"
      using assms(1) by (simp add: gen_inv_def)
    have ng: "in_grid (g_maze s) (x + dx4 ! i) (y + dy4 ! i)" and nv: "\<not> g_visited s ! ?ni"
      using push(2) by (simp_all add: IsValidUnvisited_iff)
    have nil: "?ni < length (g_visited s)" unfolding len by (rule CellIndex_nat_less [OF ng])
    have "num_visited (g_visited s) < length (g_visited s)"
      by (rule num_visited_lt [OF nil nv])
    then have "gen_measure (gen_step rnd s) < gen_measure s"
      using num_visited_update [OF nil nv]
      by (simp add: gen_measure_def push(3) st)
    then show ?thesis
      using gen_step_push_inv [OF assms(1) st push(1,2)] push(3) by simp
  qed
qed

subsection \<open>The loop terminates and keeps the invariant\<close>

lemma gen_step_empty: "g_stack s = [] \<Longrightarrow> gen_step rnd s = s"
  by (simp add: gen_step_def)


lemma gen_loop_terminates:
  "gen_inv s \<Longrightarrow> \<exists>s'. gen_loop rnd s = Some s' \<and> gen_inv s' \<and> g_stack s' = []"
proof (induction "gen_measure s" arbitrary: s rule: less_induct)
  case less
  show ?case
  proof (cases "g_stack s = []")
    case True
    then show ?thesis using less.prems by (subst gen_loop.simps) simp
  next
    case False
    from gen_step_inv [OF less.prems False, of rnd]
    have "gen_inv (gen_step rnd s)" "gen_measure (gen_step rnd s) < gen_measure s"
      by simp_all
    from less.hyps [OF this(2) this(1)] show ?thesis
      using False by (subst gen_loop.simps) simp
  qed
qed

subsection \<open>The initial state\<close>

definition all_walls :: "Maze \<Rightarrow> bool" where
  "all_walls m = (\<forall>i < length (cells m). cells m ! i = 15)"

lemma bit_15: "k < 4 \<Longrightarrow> bit (15 :: 8 word) k"
  by (drule four_cases) (auto simp: bit_numeral_word_iff numeral_3_eq_3 numeral_2_eq_2)

lemma all_walls_wall_bit:
  assumes "maze_ok m" "all_walls m" "in_grid m a b" "k < 4"
  shows "wall_bit m a b k"
proof -
  have "nat (CellIndex m a b) < length (cells m)"
    using assms(1) CellIndex_nat_less [OF assms(3)] by (simp add: maze_ok_def)
  then have "cells m ! nat (CellIndex m a b) = 15"
    using assms(2) by (simp add: all_walls_def)
  then show ?thesis
    using bit_15 [OF assms(4)] by (simp add: wall_bit_def)
qed

lemma all_walls_no_passages:
  assumes "maze_ok m" "all_walls m"
  shows "num_passages m = 0"
proof -
  have "\<not> open_east m a b" "\<not> open_south m a b" for a b
    using all_walls_wall_bit [OF assms, of a b 1] all_walls_wall_bit [OF assms, of a b 2]
    by (auto simp: open_east_bits open_south_bits)
  then show ?thesis by (simp add: num_passages_card)
qed

lemma all_walls_symmetric:
  assumes "maze_ok m" "all_walls m"
  shows "walls_symmetric m"
  unfolding walls_symmetric_bits
  using all_walls_wall_bit [OF assms] by simp

lemma num_visited_replicate: "num_visited (replicate n False) = 0"
  by (simp add: num_visited_def)

lemma gen_init_inv:
  assumes ok: "maze_ok m" and aw: "all_walls m" and fit: "fits_int m"
  shows "gen_inv (gen_init m k)"
proof -
  let ?n = "nat (width m * height m)"
  have "0 \<le> width m * height m" using ok by (simp add: maze_ok_def)
  then have w32: "wrap32 (width m * height m) = width m * height m"
    using fit by (intro wrap32_id) (simp_all add: INT_MIN_def fits_int_def)
  let ?vs = "(replicate ?n False)[nat (CellIndex m 0 0) := True]"
  have g0: "in_grid m 0 0" using ok by (simp add: maze_ok_def in_grid_def)
  have i0: "nat (CellIndex m 0 0) < ?n" by (rule CellIndex_nat_less [OF g0])
  have V: "visited_at m ?vs a b = (a = 0 \<and> b = 0)" for a b
  proof (cases "in_grid m a b")
    case True
    have "nat (CellIndex m a b) < ?n" by (rule CellIndex_nat_less [OF True])
    then show ?thesis
      using True i0 CellIndex_inj [OF True g0]
      by (auto simp: visited_at_def nth_list_update)
  next
    case False
    then show ?thesis using g0 by (auto simp: visited_at_def)
  qed
  have nv: "num_visited ?vs = Suc 0"
    using num_visited_update [of "nat (CellIndex m 0 0)" "replicate ?n False"] i0
    by (simp add: num_visited_replicate)
  show ?thesis
    unfolding gen_inv_def gen_init_def w32
    using ok all_walls_wall_bit [OF ok aw] all_walls_symmetric [OF ok aw]
      all_walls_no_passages [OF ok aw] nv
    by (simp add: V)
qed

lemma Maze_Create_all_walls:
  "Maze_Create a1 a2 w h cs = Some m \<Longrightarrow> w * h \<le> INT_MAX \<Longrightarrow> all_walls m"
  by (drule Maze_Create_Some) (auto simp: all_walls_def)

subsection \<open>When the stack is empty every cell has been visited\<close>

lemma all_visited:
  assumes inv: "gen_inv s" and emp: "g_stack s = []" and g: "in_grid (g_maze s) a b"
  shows "visited_at (g_maze s) (g_visited s) a b"
proof -
  let ?m = "g_maze s" and ?V = "visited_at (g_maze s) (g_visited s)"
  have org: "?V 0 0" using inv by (simp add: gen_inv_def)
  have fin: "?V x y \<Longrightarrow> j < 4 \<Longrightarrow> in_grid ?m (x + dx4 ! j) (y + dy4 ! j) \<Longrightarrow>
      ?V (x + dx4 ! j) (y + dy4 ! j)" for x y j
    using inv emp unfolding gen_inv_def by simp
  have row: "0 \<le> x \<Longrightarrow> x < width ?m \<longrightarrow> ?V x 0" for x
  proof (induction x rule: int_ge_induct)
    case base
    then show ?case using org by simp
  next
    case (step x)
    show ?case
    proof
      assume l: "x + 1 < width ?m"
      then have "?V x 0" using step by simp
      moreover have "in_grid ?m (x + 1) 0" using l step(1) g by (simp add: in_grid_def)
      ultimately show "?V (x + 1) 0" using fin [of x 0 1] by (simp add: offsets)
    qed
  qed
  have col: "0 \<le> y \<Longrightarrow> y < height ?m \<longrightarrow> ?V a y" for y
  proof (induction y rule: int_ge_induct)
    case base
    then show ?case using row [of a] g by (simp add: in_grid_def)
  next
    case (step y)
    show ?case
    proof
      assume l: "y + 1 < height ?m"
      then have "?V a y" using step by simp
      moreover have "in_grid ?m a (y + 1)" using l step(1) g by (simp add: in_grid_def)
      ultimately show "?V a (y + 1)" using fin [of a y 2] by (simp add: offsets)
    qed
  qed
  show ?thesis using col [of b] g by (simp add: in_grid_def)
qed

lemma all_visited_count:
  assumes inv: "gen_inv s" and emp: "g_stack s = []"
  shows "num_visited (g_visited s) = nat (width (g_maze s) * height (g_maze s))"
proof -
  let ?m = "g_maze s" and ?vs = "g_visited s"
  have ok: "maze_ok ?m" and len: "length ?vs = nat (width ?m * height ?m)"
    using inv by (simp_all add: gen_inv_def)
  have w: "0 < width ?m" using ok by (simp add: maze_ok_def)
  have "?vs ! n" if n: "n < length ?vs" for n
  proof -
    let ?a = "int n mod width ?m" and ?b = "int n div width ?m"
    have lt: "int n < width ?m * height ?m" using n len by simp
    have "?b < height ?m"
    proof (rule ccontr)
      assume "\<not> ?b < height ?m"
      then have "width ?m * height ?m \<le> width ?m * ?b"
        using w by (intro mult_left_mono) auto
      moreover have "width ?m * ?b + ?a = int n" by (rule mult_div_mod_eq)
      moreover have "0 \<le> ?a" using w by simp
      ultimately show False using lt by linarith
    qed
    moreover have "0 \<le> ?b" using w by (simp add: pos_imp_zdiv_nonneg_iff)
    ultimately have g: "in_grid ?m ?a ?b" using w by (simp add: in_grid_def)
    have "CellIndex ?m ?a ?b = int n" by (simp add: CellIndex_in_grid [OF g])
    then show ?thesis using all_visited [OF inv emp g] by (simp add: visited_at_def)
  qed
  then show ?thesis using num_visited_all [of ?vs] len by simp
qed

lemma gen_final_spanning_tree:
  assumes inv: "gen_inv s" and emp: "g_stack s = []"
  shows "spanning_tree (g_maze s)"
proof -
  let ?m = "g_maze s"
  have ok: "maze_ok ?m" using inv by (simp add: gen_inv_def)
  have "1 \<le> width ?m * height ?m"
    using ok mult_mono [of 1 "width ?m" 1 "height ?m"] by (simp add: maze_ok_def)
  moreover have "Suc (num_passages ?m) = nat (width ?m * height ?m)"
    using inv all_visited_count [OF inv emp] by (simp add: gen_inv_def)
  ultimately have cnt: "int (num_passages ?m) = width ?m * height ?m - 1" by linarith
  have con: "(passage ?m)\<^sup>*\<^sup>* (0, 0) (a, b)" if "in_grid ?m a b" for a b
    using inv all_visited [OF inv emp that] unfolding gen_inv_def by blast
  have "(passage ?m)\<^sup>*\<^sup>* p q" if "p \<in> set (all_cells ?m)" "q \<in> set (all_cells ?m)" for p q
  proof -
    obtain a b c d where pq: "p = (a, b)" "q = (c, d)" by (cases p; cases q) auto
    with that have "in_grid ?m a b" "in_grid ?m c d" by (simp_all add: set_all_cells)
    then have "(passage ?m)\<^sup>*\<^sup>* (a, b) (0, 0)" "(passage ?m)\<^sup>*\<^sup>* (0, 0) (c, d)"
      by (auto intro: con passage_rtrancl_sym)
    then show ?thesis unfolding pq by (rule rtranclp_trans)
  qed
  with cnt show ?thesis by (simp add: spanning_tree_def)
qed

definition same_frame :: "Maze \<Rightarrow> Maze \<Rightarrow> bool" where
  "same_frame m m' =
     (width m' = width m \<and> height m' = height m \<and> cellSize m' = cellSize m \<and>
      startPos m' = startPos m \<and> exitPos m' = exitPos m \<and>
      length (cells m') = length (cells m))"

lemma gen_step_same_frame: "same_frame (g_maze s) (g_maze (gen_step rnd s))"
proof (cases "g_stack s")
  case Nil
  then show ?thesis by (simp add: gen_step_empty same_frame_def)
next
  case (Cons p rest)
  obtain x y where "p = (x, y)" by (cases p)
  with Cons have "g_stack s = (x, y) # rest" by simp
  then show ?thesis
    by (cases rule: gen_step_cases [where rnd = rnd]) (simp_all add: same_frame_def)
qed

lemma gen_loop_result:
  "gen_inv s \<Longrightarrow>
     \<exists>s'. gen_loop rnd s = Some s' \<and> gen_inv s' \<and> g_stack s' = [] \<and>
          same_frame (g_maze s) (g_maze s')"
proof (induction "gen_measure s" arbitrary: s rule: less_induct)
  case less
  show ?case
  proof (cases "g_stack s = []")
    case True
    then show ?thesis
      using less.prems by (subst gen_loop.simps) (simp add: same_frame_def)
  next
    case False
    from gen_step_inv [OF less.prems False, of rnd]
    have "gen_inv (gen_step rnd s)" "gen_measure (gen_step rnd s) < gen_measure s"
      by simp_all
    from less.hyps [OF this(2) this(1)] obtain s' where
      "gen_loop rnd (gen_step rnd s) = Some s'" "gen_inv s'" "g_stack s' = []"
      "same_frame (g_maze (gen_step rnd s)) (g_maze s')"
      by blast
    then show ?thesis
      using False gen_step_same_frame [of s rnd]
      by (subst gen_loop.simps) (simp add: same_frame_def)
  qed
qed

lemma stack_within_capacity:
  assumes "gen_inv s"
  shows "length (g_stack s) \<le> nat (width (g_maze s) * height (g_maze s))"
  using assms num_visited_le [of "g_visited s"] by (simp add: gen_inv_def)

lemma Maze_Generate_result:
  assumes ok: "maze_ok m" and aw: "all_walls m" and fit: "fits_int m"
  shows "\<exists>m' k'. Maze_Generate True True rnd k m = Some (m', k') \<and>
           spanning_tree m' \<and> walls_symmetric m' \<and> same_frame m m'"
proof -
  from gen_loop_result [OF gen_init_inv [OF ok aw fit, of k], of rnd] obtain s' where
    s': "gen_loop rnd (gen_init m k) = Some s'" "gen_inv s'" "g_stack s' = []"
      "same_frame (g_maze (gen_init m k)) (g_maze s')"
    by blast
  have "Maze_Generate True True rnd k m = Some (g_maze s', g_calls s')"
    by (simp add: Maze_Generate_def s'(1))
  moreover have "spanning_tree (g_maze s')" by (rule gen_final_spanning_tree [OF s'(2,3)])
  moreover have "walls_symmetric (g_maze s')" using s'(2) by (simp add: gen_inv_def)
  moreover have "same_frame m (g_maze s')" using s'(4) by (simp add: gen_init_def)
  ultimately show ?thesis by blast
qed

definition rand_const :: "nat \<Rightarrow> nat \<Rightarrow> nat" where
  "rand_const c k = c"

text \<open>
  C1 (as amended). For a maze that \<open>Maze_Create\<close> returned and whose number of cells
  \<open>width * height\<close> is in the range of \<open>int\<close>, \<open>Maze_Generate\<close> terminates when its two
  allocations succeed, and the graph of open passages of the result is a spanning tree of
  the grid: it has exactly \<open>width * height - 1\<close> open passages and any two cells are
  connected by open passages. The dimensions are unchanged.
\<close>

theorem Maze_Generate_spanning_tree:
  assumes "Maze_Create malloc_ok calloc_ok w h cs = Some m" and "w * h \<le> INT_MAX"
  shows "\<exists>m' k'. Maze_Generate True True rnd k m = Some (m', k') \<and> spanning_tree m' \<and>
           width m' = w \<and> height m' = h"
proof -
  from Maze_Generate_result [OF Maze_Create_maze_ok [OF assms] Maze_Create_all_walls [OF assms]
      Maze_Create_fits_int [OF assms], of rnd k]
  obtain m' k' where "Maze_Generate True True rnd k m = Some (m', k')" "spanning_tree m'"
    "same_frame m m'"
    by blast
  moreover have "width m = w" "height m = h" using Maze_Create_frame [OF assms(1)] by auto
  ultimately show ?thesis by (auto simp: same_frame_def)
qed

theorem Maze_Generate_spanning_tree_witness:
  "\<exists>m' k'. Maze_Generate True True (rand_const 0) 0
       \<lparr>width = 2, height = 2, cells = replicate 4 15, cellSize = 1,
        startPos = (0, 0), exitPos = (1, 1)\<rparr> = Some (m', k') \<and>
     spanning_tree m' \<and> width m' = 2 \<and> height m' = 2"
proof -
  have i: "i2f 1 = 1" using i2f_exact [of 1] by simp
  have c: "Maze_Create True True 2 2 1 =
      Some \<lparr>width = 2, height = 2, cells = replicate 4 15, cellSize = 1,
            startPos = (0, 0), exitPos = (1, 1)\<rparr>"
    using init_all_walls_replicate [of 4] by (simp add: Maze_Create_def wrap32_def i)
  have f: "(2::int) * 2 \<le> INT_MAX" by (simp add: INT_MAX_def)
  from Maze_Generate_spanning_tree [OF c f] show ?thesis .
qed

text \<open>
  The claim C1 as stated covers every run of \<open>Maze_Generate\<close> on every maze that
  \<open>Maze_Create\<close> returns. When the allocation of \<open>visited\<close> fails the function returns at
  once: a 2 x 1 maze keeps all its walls and has no open passage instead of one. And for
  \<open>width = height = 65536\<close> the maze that \<open>Maze_Create\<close> returns has no cell bytes at all, the
  \<open>int\<close> product \<open>width * height\<close> being 0.
\<close>

theorem Maze_Generate_alloc_failure_counterexample:
  "Maze_Create True True 2 1 1 =
     Some \<lparr>width = 2, height = 1, cells = replicate 2 15, cellSize = 1,
           startPos = (0, 0), exitPos = (1, 0)\<rparr> \<and>
   Maze_Generate False True (rand_const 0) 0
     \<lparr>width = 2, height = 1, cells = replicate 2 15, cellSize = 1,
      startPos = (0, 0), exitPos = (1, 0)\<rparr> =
     Some (\<lparr>width = 2, height = 1, cells = replicate 2 15, cellSize = 1,
            startPos = (0, 0), exitPos = (1, 0)\<rparr>, 0) \<and>
   \<not> spanning_tree \<lparr>width = 2, height = 1, cells = replicate 2 15, cellSize = 1,
                    startPos = (0, 0), exitPos = (1, 0)\<rparr> \<and>
   Maze_Create True True 65536 65536 1 =
     Some \<lparr>width = 65536, height = 65536, cells = [], cellSize = 1,
           startPos = (0, 0), exitPos = (65535, 65535)\<rparr>"
proof -
  let ?m = "\<lparr>width = 2, height = 1, cells = replicate 2 15, cellSize = 1,
           startPos = (0, 0), exitPos = (1, 0)\<rparr>"
  have i: "i2f 1 = 1" "i2f 0 = 0" using i2f_exact [of 1] i2f_exact [of 0] by simp_all
  have c: "Maze_Create True True 2 1 1 = Some ?m"
    using init_all_walls_replicate [of 2] by (simp add: Maze_Create_def wrap32_def i)
  have f: "(2::int) * 1 \<le> INT_MAX" by (simp add: INT_MAX_def)
  have "num_passages ?m = 0"
    by (rule all_walls_no_passages [OF Maze_Create_maze_ok [OF c f] Maze_Create_all_walls [OF c f]])
  then have "\<not> spanning_tree ?m" by (simp add: spanning_tree_def)
  moreover have "Maze_Generate False True (rand_const 0) 0 ?m = Some (?m, 0)"
    by (simp add: Maze_Generate_def)
  moreover have "Maze_Create True True 65536 65536 1 =
     Some \<lparr>width = 65536, height = 65536, cells = [], cellSize = 1,
           startPos = (0, 0), exitPos = (65535, 65535)\<rparr>"
    by (simp add: Maze_Create_def wrap32_def init_all_walls_def)
  ultimately show ?thesis using c by simp
qed




section \<open>Coordinate mapping and out-of-bounds queries\<close>

lemma float_to_int_floor:
  assumes "0 \<le> f" "f < 2147483648"
  shows "float_to_int f = \<lfloor>f\<rfloor>"
proof -
  have "0 \<le> \<lfloor>f\<rfloor>" using assms(1) by simp
  moreover have "\<lfloor>f\<rfloor> < 2147483648" using assms(2) by (simp add: floor_less_iff)
  ultimately show ?thesis
    using assms(1) by (simp add: float_to_int_def Let_def INT_MIN_def INT_MAX_def)
qed

lemma float_to_int_in_range:
  assumes "1 \<le> n" "n \<le> INT_MAX"
  shows "(0 \<le> float_to_int s \<and> float_to_int s < n) = (- 1 < s \<and> s < of_int n)"
proof (cases "s < 0")
  case True
  define t where "t = \<lceil>s\<rceil>"
  have f: "float_to_int s = (if INT_MIN \<le> t \<and> t \<le> INT_MAX then t else INT_MIN)"
    using True by (simp add: float_to_int_def Let_def t_def)
  have c: "(0 \<le> t) = (- 1 < s)" by (simp add: t_def le_ceiling_iff)
  have "t \<le> 0" using True by (simp add: t_def ceiling_le_iff)
  then have tn: "t < n" "t \<le> INT_MAX" using assms by simp_all
  have "(0::real) < of_int n" using assms(1) by simp
  then have sn: "s < of_int n" using True by linarith
  show ?thesis
    unfolding f using c tn sn by (auto simp: INT_MIN_def)
next
  case False
  define t where "t = \<lfloor>s\<rfloor>"
  have f: "float_to_int s = (if INT_MIN \<le> t \<and> t \<le> INT_MAX then t else INT_MIN)"
    using False by (simp add: float_to_int_def Let_def t_def)
  have t0: "0 \<le> t" using False by (simp add: t_def)
  have l: "(t < n) = (s < of_int n)" by (simp add: t_def floor_less_iff)
  have s1: "- 1 < s" using False by simp
  show ?thesis
    unfolding f using t0 l s1 assms by (auto simp: INT_MIN_def)
qed

text \<open>
  One coordinate of the round trip: the cell index \<open>x\<close> of a row of \<open>w\<close> cells of size
  \<open>cs\<close> is mapped to the world and back. Up to the multiplication by \<open>cs\<close> every value is a
  multiple of \<open>1 / 2\<close> below \<open>2^23\<close>, hence exact; the multiplication, the division and the
  last addition each add a relative error of at most \<open>2^-24\<close>.
\<close>

lemma coord_roundtrip:
  assumes w: "1 \<le> w" "w \<le> 2097152" and x: "0 \<le> x" "x < w"
    and cs: "1 / 2 ^ 100 \<le> cs" "cs \<le> 2 ^ 100"
  shows "float_to_int
           (fadd (fdiv (fmul (fadd (fsub (i2f x) (fmul (i2f w) 0.5)) 0.5) cs) cs)
                 (fmul (i2f w) 0.5)) = x"
proof -
  define a :: real where "a = of_int (2 * x - w + 1) / 2"
  define u :: real where "u = 1 / 2 ^ 24"
  have "(0::real) < 1 / 2 ^ 100" by simp
  then have cs0: "0 < cs" using cs(1) by linarith
  have iw: "i2f w = of_int w" using w by (intro i2f_exact) simp
  have ix: "i2f x = of_int x" using w x by (intro i2f_exact) simp
  have hw: "fmul (i2f w) 0.5 = of_int w / 2"
    using fl32_half_int [of w] w by (simp add: fmul_def iw)
  have "fsub (i2f x) (of_int w / 2) = fl32 (of_int (2 * x - w) / 2)"
    by (simp add: fsub_def ix field_simps)
  also have "\<dots> = of_int (2 * x - w) / 2"
    using w x by (intro fl32_half_int) simp
  finally have c3: "fsub (i2f x) (of_int w / 2) = of_int (2 * x - w) / 2" .
  have "fadd (of_int (2 * x - w) / 2) 0.5 = fl32 (of_int (2 * x - w + 1) / 2)"
    by (simp add: fadd_def field_simps)
  also have "\<dots> = a"
    unfolding a_def using w x by (intro fl32_half_int) simp
  finally have c4: "fadd (of_int (2 * x - w) / 2) 0.5 = a" .
  have mid: "a + of_int w / 2 = of_int x + 1 / 2" by (simp add: a_def field_simps)
  define X where "X = fl32 (a * cs)"
  define d where "d = fl32 (X / cs)"
  define s where "s = fl32 (d + of_int w / 2)"
  have goal: "fadd (fdiv (fmul (fadd (fsub (i2f x) (fmul (i2f w) 0.5)) 0.5) cs) cs)
                 (fmul (i2f w) 0.5) = s"
    unfolding hw c3 c4 by (simp add: s_def d_def X_def fadd_def fdiv_def fmul_def)
  have sx: "of_int x < s \<and> s < of_int x + 1"
  proof (cases "a = 0")
    case True
    have "s = fl32 (of_int w / 2)" by (simp add: s_def d_def X_def True fl32_0)
    also have "\<dots> = of_int w / 2" using w by (intro fl32_half_int) simp
    finally show ?thesis using mid True by simp
  next
    case False
    define A where "A = \<bar>a\<bar>"
    have "2 * x - w + 1 \<noteq> 0" using False by (auto simp: a_def)
    then have "1 \<le> \<bar>2 * x - w + 1\<bar>" by simp
    then have "(1::real) \<le> \<bar>of_int (2 * x - w + 1)\<bar>"
      by (metis of_int_1_le_iff of_int_abs)
    then have A1: "1 / 2 \<le> A" by (simp add: A_def a_def)
    have "\<bar>2 * x - w + 1\<bar> \<le> 2097152" using w x by simp
    then have "\<bar>of_int (2 * x - w + 1) :: real\<bar> \<le> 2097152"
      by (metis of_int_abs of_int_le_numeral_iff)
    then have A2: "A \<le> 1048576" by (simp add: A_def a_def)
    have p126: "(2::real) powi (- 126) = 1 / 2 ^ 126" by (simp add: power_int_minus field_simps)
    have "1 / 2 * (1 / 2 ^ 100) \<le> A * cs"
      using A1 cs(1) cs0 by (intro mult_mono) simp_all
    then have "2 powi (- 126) \<le> \<bar>a * cs\<bar>"
      using cs0 by (simp add: p126 abs_mult A_def)
    from fl32_error [OF this] have "\<bar>X - a * cs\<bar> \<le> A * cs * u"
      using cs0 by (simp add: X_def abs_mult A_def u_def)
    then have "\<bar>X - a * cs\<bar> / cs \<le> A * cs * u / cs"
      using cs0 by (intro divide_right_mono) simp_all
    moreover have "X / cs - a = (X - a * cs) / cs"
      using cs0 by (simp add: diff_divide_distrib)
    then have "\<bar>X - a * cs\<bar> / cs = \<bar>X / cs - a\<bar>"
      using cs0 by simp
    ultimately have e1: "\<bar>X / cs - a\<bar> \<le> A * u" using cs0 by simp
    have q1: "A - A * u \<le> \<bar>X / cs\<bar>" "\<bar>X / cs\<bar> \<le> A + A * u"
      using e1 unfolding A_def by linarith+
    have "1 / 2 ^ 126 \<le> A - A * u" using A1 by (simp add: u_def)
    then have "2 powi (- 126) \<le> \<bar>X / cs\<bar>" unfolding p126 using q1(1) by linarith
    from fl32_error [OF this] have e2: "\<bar>d - X / cs\<bar> \<le> \<bar>X / cs\<bar> * u"
      by (simp add: d_def u_def)
    have uu: "\<bar>X / cs\<bar> * u \<le> (A + A * u) * u"
      using q1(2) by (intro mult_right_mono) (simp_all add: u_def)
    have e12: "\<bar>d - a\<bar> \<le> A * u + (A + A * u) * u"
      using e1 e2 uu by linarith
    have "A * u + (A + A * u) * u \<le> 1048576 * u + (1048576 + 1048576 * u) * u"
      using A2 by (simp add: u_def)
    also have "\<dots> < 13 / 100" by (simp add: u_def)
    finally have e12': "\<bar>d - a\<bar> < 13 / 100" using e12 by linarith
    define t where "t = d + of_int w / 2"
    have t: "\<bar>t - (of_int x + 1 / 2)\<bar> < 13 / 100"
      unfolding t_def using e12' mid by linarith
    have x0: "(0::real) \<le> of_int x" using x by simp
    have xw: "of_int x + 1 \<le> (2097152::real)"
    proof -
      have "x + 1 \<le> 2097152" using x w by simp
      then have "(of_int (x + 1) :: real) \<le> 2097152" by (metis of_int_le_numeral_iff)
      then show ?thesis by simp
    qed
    have tpos: "37 / 100 < t" "t < 2097152" using t x0 xw by linarith+
    moreover have "(1::real) / 2 ^ 126 \<le> 37 / 100" by simp
    ultimately have "2 powi (- 126) \<le> \<bar>t\<bar>" unfolding p126 by linarith
    from fl32_error [OF this] have "\<bar>s - t\<bar> \<le> t * u"
      using tpos by (simp add: s_def t_def u_def)
    also have "t * u \<le> 2097152 * u" using tpos by (simp add: u_def)
    also have "\<dots> = 1 / 8" by (simp add: u_def)
    finally have "\<bar>s - t\<bar> \<le> 1 / 8" .
    then show ?thesis using t by linarith
  qed
  have "s < 2147483648" using sx x w by linarith
  moreover have "0 \<le> s" using sx x by linarith
  ultimately have "float_to_int s = \<lfloor>s\<rfloor>" by (intro float_to_int_floor)
  also have "\<dots> = x" using sx by (intro floor_unique) simp_all
  finally show ?thesis unfolding goal .
qed

text \<open>The mazes for which the round trip is proved.\<close>

definition roundtrip_range :: "Maze \<Rightarrow> bool" where
  "roundtrip_range maze =
     (width maze \<le> 2097152 \<and> height maze \<le> 2097152 \<and>
      1 / 2 ^ 100 \<le> cellSize maze \<and> cellSize maze \<le> 2 ^ 100)"

lemma roundtrip_cell:
  assumes "maze_ok m" and "roundtrip_range m" and "in_grid m x y"
  shows "Maze_WorldToCell m (fst (Maze_CellToWorld_f32 m x y)) (snd (Maze_CellToWorld_f32 m x y)) =
           (x, y)"
proof -
  have w: "1 \<le> width m" "width m \<le> 2097152" "1 \<le> height m" "height m \<le> 2097152"
    and cs: "1 / 2 ^ 100 \<le> cellSize m" "cellSize m \<le> 2 ^ 100"
    using assms(1,2) by (simp_all add: maze_ok_def roundtrip_range_def)
  have g: "0 \<le> x" "x < width m" "0 \<le> y" "y < height m"
    using assms(3) by (simp_all add: in_grid_def)
  show ?thesis
    unfolding Maze_WorldToCell_def Maze_CellToWorld_f32_def fst_conv snd_conv
    using coord_roundtrip [OF w(1,2) g(1,2) cs] coord_roundtrip [OF w(3,4) g(3,4) cs]
    by simp
qed

text \<open>
  C2 (as amended). For every maze with at least one column and one row, at most \<open>2^21\<close>
  columns and rows and a cell size between \<open>2^-100\<close> and \<open>2^100\<close>, and for every cell
  \<open>(x, y)\<close> of the grid, \<open>Maze_WorldToCell\<close> applied to the point that \<open>Maze_CellToWorld\<close>
  returns for \<open>(x, y)\<close> gives \<open>(x, y)\<close> back, all operations being those of binary32.
\<close>

theorem WorldToCell_CellToWorld_roundtrip:
  assumes "maze_ok m" and "roundtrip_range m" and "in_grid m x y"
  shows "Maze_WorldToCell m (fst (Maze_CellToWorld_f32 m x y)) (snd (Maze_CellToWorld_f32 m x y)) =
           (x, y)"
  using assms by (rule roundtrip_cell)

theorem WorldToCell_CellToWorld_roundtrip_witness:
  "Maze_WorldToCell
     \<lparr>width = 15, height = 15, cells = replicate 225 15, cellSize = 3,
      startPos = (0, 0), exitPos = (14, 14)\<rparr>
     (fst (Maze_CellToWorld_f32
        \<lparr>width = 15, height = 15, cells = replicate 225 15, cellSize = 3,
         startPos = (0, 0), exitPos = (14, 14)\<rparr> 14 3))
     (snd (Maze_CellToWorld_f32
        \<lparr>width = 15, height = 15, cells = replicate 225 15, cellSize = 3,
         startPos = (0, 0), exitPos = (14, 14)\<rparr> 14 3)) = (14, 3)"
proof -
  let ?m = "\<lparr>width = 15, height = 15, cells = replicate 225 15, cellSize = 3,
      startPos = (0, 0), exitPos = (14, 14)\<rparr>"
  have "maze_ok ?m" by (simp add: maze_ok_def)
  moreover have "roundtrip_range ?m" by (simp add: roundtrip_range_def)
  moreover have "in_grid ?m 14 3" by (simp add: in_grid_def)
  ultimately show ?thesis by (rule WorldToCell_CellToWorld_roundtrip)
qed

text \<open>
  The claim C2 as stated covers every maze. In a maze of \<open>2^24\<close> columns, one row and cell
  size 1 the last cell \<open>(16777215, 0)\<close> has the world coordinate \<open>8388607.5\<close>; on the way
  back the sum \<open>8388607.5 + 8388608\<close> is not a \<open>float\<close> and rounds to \<open>16777216\<close>, a column
  outside the grid.
\<close>

theorem WorldToCell_CellToWorld_rounding_counterexample:
  "maze_ok \<lparr>width = 16777216, height = 1, cells = replicate 16777216 15, cellSize = 1,
            startPos = (0, 0), exitPos = (16777215, 0)\<rparr> \<and>
   in_grid \<lparr>width = 16777216, height = 1, cells = replicate 16777216 15, cellSize = 1,
            startPos = (0, 0), exitPos = (16777215, 0)\<rparr> 16777215 0 \<and>
   Maze_CellToWorld_f32
     \<lparr>width = 16777216, height = 1, cells = replicate 16777216 15, cellSize = 1,
      startPos = (0, 0), exitPos = (16777215, 0)\<rparr> 16777215 0 = (16777215 / 2, 0) \<and>
   Maze_WorldToCell
     \<lparr>width = 16777216, height = 1, cells = replicate 16777216 15, cellSize = 1,
      startPos = (0, 0), exitPos = (16777215, 0)\<rparr> (16777215 / 2) 0 = (16777216, 0)"
proof -
  have h: "fl32 (1 / 2) = 1 / 2" "fl32 (- (1 / 2)) = - (1 / 2)"
    "fl32 (16777215 / 2) = 16777215 / 2"
    using fl32_half_int [of 1] fl32_half_int [of "- 1"] fl32_half_int [of 16777215] by simp_all
  have i: "fl32 8388608 = 8388608" "fl32 8388607 = 8388607"
    using fl32_of_int [of 8388608] fl32_of_int [of 8388607] by simp_all
  have "fl32 (33554431 / 2) = of_int (rne (33554431 / 2 / 2 powi (23 - 23))) * 2 powi (23 - 23)"
    by (rule fl32_eval) simp_all
  also have "\<dots> = 16777216" by (simp add: rne_def)
  finally have r: "fl32 (33554431 / 2) = 16777216" .
  have f: "float_to_int 16777216 = 16777216" "float_to_int (1 / 2) = 0"
    by (simp_all add: float_to_int_def INT_MIN_def INT_MAX_def)
  show ?thesis
    by (simp add: maze_ok_def in_grid_def Maze_CellToWorld_f32_def Maze_WorldToCell_def
        fadd_def fsub_def fmul_def fdiv_def fl32_0 h i r f)
qed

text \<open>
  C6 (as amended). A wall query outside the grid does not fail and answers "wall present"
  for every direction. \<open>Maze_WorldToCell\<close>, in a maze with at least one column and one row
  and a positive cell size, does not fail either, but it does not clamp: it
  casts the binary32 values of \<open>worldX / cellSize + width / 2\<close> and
  \<open>worldZ / cellSize + height / 2\<close> to \<open>int\<close>, and the cell it returns lies in the grid exactly when
  the first value lies strictly between \<open>-1\<close> and \<open>width\<close> and the second strictly
  between \<open>-1\<close> and \<open>height\<close>; for every other world position it is outside the grid.
\<close>

theorem HasWall_out_of_bounds_WorldToCell_unclamped:
  "(\<not> in_grid m x y \<longrightarrow> Maze_HasWall m x y direction) \<and>
   (1 \<le> width m \<and> width m \<le> INT_MAX \<and> 1 \<le> height m \<and> height m \<le> INT_MAX \<and>
    0 < cellSize m \<longrightarrow>
      in_grid m (fst (Maze_WorldToCell m worldX worldZ)) (snd (Maze_WorldToCell m worldX worldZ)) =
        (- 1 < fadd (fdiv worldX (cellSize m)) (fmul (i2f (width m)) 0.5) \<and>
         fadd (fdiv worldX (cellSize m)) (fmul (i2f (width m)) 0.5) < of_int (width m) \<and>
         - 1 < fadd (fdiv worldZ (cellSize m)) (fmul (i2f (height m)) 0.5) \<and>
         fadd (fdiv worldZ (cellSize m)) (fmul (i2f (height m)) 0.5) < of_int (height m)))"
proof -
  have 1: "\<not> in_grid m x y \<longrightarrow> Maze_HasWall m x y direction"
    by (simp add: Maze_HasWall_def CellIndex_out)
  have 2: "in_grid m (fst (Maze_WorldToCell m worldX worldZ)) (snd (Maze_WorldToCell m worldX worldZ)) =
        (- 1 < fadd (fdiv worldX (cellSize m)) (fmul (i2f (width m)) 0.5) \<and>
         fadd (fdiv worldX (cellSize m)) (fmul (i2f (width m)) 0.5) < of_int (width m) \<and>
         - 1 < fadd (fdiv worldZ (cellSize m)) (fmul (i2f (height m)) 0.5) \<and>
         fadd (fdiv worldZ (cellSize m)) (fmul (i2f (height m)) 0.5) < of_int (height m))"
    if b: "1 \<le> width m \<and> width m \<le> INT_MAX \<and> 1 \<le> height m \<and> height m \<le> INT_MAX \<and>
      0 < cellSize m"
  proof -
    from b have w: "1 \<le> width m" "width m \<le> INT_MAX" and h: "1 \<le> height m" "height m \<le> INT_MAX"
      by simp_all
    show ?thesis
      unfolding in_grid_def Maze_WorldToCell_def fst_conv snd_conv
      using float_to_int_in_range [OF w, of "fadd (fdiv worldX (cellSize m)) (fmul (i2f (width m)) 0.5)"]
        float_to_int_in_range [OF h, of "fadd (fdiv worldZ (cellSize m)) (fmul (i2f (height m)) 0.5)"]
      by blast
  qed
  from 1 2 show ?thesis by blast
qed

theorem HasWall_out_of_bounds_WorldToCell_unclamped_witness:
  "Maze_HasWall
     \<lparr>width = 1, height = 1, cells = replicate 1 15, cellSize = 1,
      startPos = (0, 0), exitPos = (0, 0)\<rparr> 5 0 MAZE_NORTH \<and>
   \<not> in_grid
     \<lparr>width = 1, height = 1, cells = replicate 1 15, cellSize = 1,
      startPos = (0, 0), exitPos = (0, 0)\<rparr>
     (fst (Maze_WorldToCell
        \<lparr>width = 1, height = 1, cells = replicate 1 15, cellSize = 1,
         startPos = (0, 0), exitPos = (0, 0)\<rparr> 5 0))
     (snd (Maze_WorldToCell
        \<lparr>width = 1, height = 1, cells = replicate 1 15, cellSize = 1,
         startPos = (0, 0), exitPos = (0, 0)\<rparr> 5 0))"
proof -
  let ?m = "\<lparr>width = 1, height = 1, cells = replicate 1 15, cellSize = 1,
      startPos = (0, 0), exitPos = (0, 0)\<rparr>"
  have h: "fl32 (1 / 2) = 1 / 2" "fl32 (11 / 2) = 11 / 2" "fl32 5 = 5"
    using fl32_half_int [of 1] fl32_half_int [of 11] fl32_of_int [of 5] by simp_all
  have s: "fadd (fdiv 5 (cellSize ?m)) (fmul (i2f (width ?m)) 0.5) = 11 / 2"
    by (simp add: fadd_def fdiv_def fmul_def h)
  have "\<not> in_grid ?m 5 0" by (simp add: in_grid_def)
  moreover have "1 \<le> width ?m \<and> width ?m \<le> INT_MAX \<and> 1 \<le> height ?m \<and> height ?m \<le> INT_MAX \<and>
      0 < cellSize ?m"
    by (simp add: INT_MAX_def)
  ultimately show ?thesis
    using HasWall_out_of_bounds_WorldToCell_unclamped [of ?m 5 0 MAZE_NORTH 5 0]
    unfolding s by simp
qed

text \<open>
  The claim C6 as stated asks for a clamped cell. In a 1 x 1 maze with cell size 1, which
  covers the world square from \<open>-0.5\<close> to \<open>0.5\<close>, the world position \<open>(5, 0)\<close> is mapped to
  the cell \<open>(5, 0)\<close>, which is not a cell of the grid.
\<close>

theorem WorldToCell_clamped_counterexample:
  "Maze_Create True True 1 1 1 =
     Some \<lparr>width = 1, height = 1, cells = replicate 1 15, cellSize = 1,
           startPos = (0, 0), exitPos = (0, 0)\<rparr> \<and>
   Maze_WorldToCell
     \<lparr>width = 1, height = 1, cells = replicate 1 15, cellSize = 1,
      startPos = (0, 0), exitPos = (0, 0)\<rparr> 5 0 = (5, 0) \<and>
   \<not> in_grid
     \<lparr>width = 1, height = 1, cells = replicate 1 15, cellSize = 1,
      startPos = (0, 0), exitPos = (0, 0)\<rparr> 5 0"
proof -
  have h: "fl32 (1 / 2) = 1 / 2" "fl32 (11 / 2) = 11 / 2" "fl32 5 = 5"
    using fl32_half_int [of 1] fl32_half_int [of 11] fl32_of_int [of 5] by simp_all
  have f: "float_to_int (11 / 2) = 5" "float_to_int (1 / 2) = 0"
    by (simp_all add: float_to_int_def INT_MIN_def INT_MAX_def)
  show ?thesis
    by (simp add: Maze_Create_def wrap32_def init_all_walls_def MAZE_ALL_def Maze_WorldToCell_def
        in_grid_def fadd_def fdiv_def fmul_def fl32_0 h f)
qed

section \<open>main.c: collision queries and movement\<close>

text \<open>
  The collision helpers of \<open>main.c\<close>. A \<open>Vector2\<close> holds the XZ coordinates \<open>(x, y)\<close>. The
  array \<open>walls\<close> with its length \<open>count\<close> is a list. \<open>resolve_movement\<close> is the block of the
  frame loop that moves a circle at \<open>pXZ\<close> by \<open>step\<close>: first along X, then along Z from the
  position reached; the player is moved with the radius \<open>PLAYER_RADIUS\<close>, a pursuer with its
  own radius.
\<close>

definition PLAYER_RADIUS :: real where "PLAYER_RADIUS = 0.30"

definition clampf :: "real \<Rightarrow> real \<Rightarrow> real \<Rightarrow> real" where
  "clampf v lo hi = (if v < lo then lo else if v > hi then hi else v)"

definition CircleRectIntersect :: "Vector2 \<Rightarrow> real \<Rightarrow> Rectangle \<Rightarrow> bool" where
  "CircleRectIntersect c r rct =
     (let nx = clampf (fst c) (rect_x rct) (rect_x rct + rect_width rct);
          nz = clampf (snd c) (rect_y rct) (rect_y rct + rect_height rct);
          dx = fst c - nx;
          dz = snd c - nz
      in dx * dx + dz * dz \<le> r * r)"

text \<open>\<open>CircleCircleIntersect\<close> with the operations of binary32.\<close>

definition CircleCircleIntersect :: "Vector2 \<Rightarrow> real \<Rightarrow> Vector2 \<Rightarrow> real \<Rightarrow> bool" where
  "CircleCircleIntersect c1 r1 c2 r2 =
     (let dx = fsub (fst c1) (fst c2);
          dz = fsub (snd c1) (snd c2);
          distSq = fadd (fmul dx dx) (fmul dz dz);
          radiusSum = fadd r1 r2
      in distSq \<le> fmul radiusSum radiusSum)"

fun CollidesAny :: "Vector2 \<Rightarrow> real \<Rightarrow> WallRect list \<Rightarrow> bool" where
  "CollidesAny c r [] = False"
| "CollidesAny c r (w # walls) =
     (if CircleRectIntersect c r (rect w) then True else CollidesAny c r walls)"

definition resolve_movement :: "Vector2 \<Rightarrow> Vector2 \<Rightarrow> real \<Rightarrow> WallRect list \<Rightarrow> Vector2" where
  "resolve_movement pXZ step r walls =
     (let testX = (fst pXZ + fst step, snd pXZ);
          pXZ1 = (if \<not> CollidesAny testX r walls then (fst testX, snd pXZ) else pXZ);
          testZ = (fst pXZ1, snd pXZ1 + snd step);
          pXZ2 = (if \<not> CollidesAny testZ r walls then (fst pXZ1, snd testZ) else pXZ1)
      in pXZ2)"

text \<open>A point of the rectangle lies within distance \<open>r\<close> of the centre \<open>c\<close>.\<close>

definition circle_meets_rect :: "Vector2 \<Rightarrow> real \<Rightarrow> Rectangle \<Rightarrow> bool" where
  "circle_meets_rect c r rct =
     (\<exists>px pz. rect_x rct \<le> px \<and> px \<le> rect_x rct + rect_width rct \<and>
              rect_y rct \<le> pz \<and> pz \<le> rect_y rct + rect_height rct \<and>
              (fst c - px)\<^sup>2 + (snd c - pz)\<^sup>2 \<le> r\<^sup>2)"

lemma CollidesAny_iff:
  "CollidesAny c r walls = (\<exists>w \<in> set walls. CircleRectIntersect c r (rect w))"
  by (induction walls) auto

lemma clampf_nearest:
  assumes "lo \<le> hi" "lo \<le> p" "p \<le> hi"
  shows "lo \<le> clampf v lo hi" "clampf v lo hi \<le> hi" "(v - clampf v lo hi)\<^sup>2 \<le> (v - p)\<^sup>2"
proof -
  show "lo \<le> clampf v lo hi" "clampf v lo hi \<le> hi"
    using assms by (auto simp: clampf_def)
  have "\<bar>v - clampf v lo hi\<bar> \<le> \<bar>v - p\<bar>"
    using assms by (auto simp: clampf_def)
  then show "(v - clampf v lo hi)\<^sup>2 \<le> (v - p)\<^sup>2"
    by (simp add: abs_le_square_iff)
qed

lemma CircleRectIntersect_geometric:
  assumes "0 \<le> rect_width rct" "0 \<le> rect_height rct"
  shows "CircleRectIntersect c r rct = circle_meets_rect c r rct"
proof
  let ?nx = "clampf (fst c) (rect_x rct) (rect_x rct + rect_width rct)"
  let ?nz = "clampf (snd c) (rect_y rct) (rect_y rct + rect_height rct)"
  assume "CircleRectIntersect c r rct"
  then have "(fst c - ?nx)\<^sup>2 + (snd c - ?nz)\<^sup>2 \<le> r\<^sup>2"
    by (simp add: CircleRectIntersect_def Let_def power2_eq_square)
  moreover have "rect_x rct \<le> ?nx" "?nx \<le> rect_x rct + rect_width rct"
    "rect_y rct \<le> ?nz" "?nz \<le> rect_y rct + rect_height rct"
    using assms by (auto simp: clampf_def)
  ultimately show "circle_meets_rect c r rct"
    unfolding circle_meets_rect_def by blast
next
  let ?nx = "clampf (fst c) (rect_x rct) (rect_x rct + rect_width rct)"
  let ?nz = "clampf (snd c) (rect_y rct) (rect_y rct + rect_height rct)"
  assume "circle_meets_rect c r rct"
  then obtain px pz where p: "rect_x rct \<le> px" "px \<le> rect_x rct + rect_width rct"
    "rect_y rct \<le> pz" "pz \<le> rect_y rct + rect_height rct"
    "(fst c - px)\<^sup>2 + (snd c - pz)\<^sup>2 \<le> r\<^sup>2"
    unfolding circle_meets_rect_def by blast
  have "(fst c - ?nx)\<^sup>2 \<le> (fst c - px)\<^sup>2"
    using assms(1) p(1,2) by (intro clampf_nearest) auto
  moreover have "(snd c - ?nz)\<^sup>2 \<le> (snd c - pz)\<^sup>2"
    using assms(2) p(3,4) by (intro clampf_nearest) auto
  ultimately have "(fst c - ?nx)\<^sup>2 + (snd c - ?nz)\<^sup>2 \<le> r\<^sup>2"
    using p(5) by linarith
  then show "CircleRectIntersect c r rct"
    by (simp add: CircleRectIntersect_def Let_def power2_eq_square)
qed

text \<open>
  C7. The X displacement alone is tried first and is taken exactly when the circle at the
  moved position meets no wall rectangle; then the Z displacement alone is tried from the
  position reached and is taken exactly when that position meets no wall rectangle. In the
  scenario of the specification (circle at \<open>(0, 0)\<close>, radius \<open>0.3\<close>, step \<open>(1, 1)\<close>, one
  rectangle spanning \<open>x\<close> from 0.5 to 1.5 and \<open>z\<close> from -1 to 1) the X move is blocked, the Z
  move is free and the circle ends at \<open>(0, 1)\<close>.
\<close>

theorem movement_axis_separated:
  "fst (resolve_movement p s r walls) =
     (if \<exists>w \<in> set walls. CircleRectIntersect (fst p + fst s, snd p) r (rect w)
      then fst p else fst p + fst s) \<and>
   snd (resolve_movement p s r walls) =
     (if \<exists>w \<in> set walls.
           CircleRectIntersect (fst (resolve_movement p s r walls), snd p + snd s) r (rect w)
      then snd p else snd p + snd s) \<and>
   CollidesAny (1, 0) 0.3
     [\<lparr>rect = \<lparr>rect_x = 0.5, rect_y = - 1, rect_width = 1, rect_height = 2\<rparr>,
       isVertical = True\<rparr>] \<and>
   \<not> CollidesAny (0, 1) 0.3
     [\<lparr>rect = \<lparr>rect_x = 0.5, rect_y = - 1, rect_width = 1, rect_height = 2\<rparr>,
       isVertical = True\<rparr>] \<and>
   resolve_movement (0, 0) (1, 1) 0.3
     [\<lparr>rect = \<lparr>rect_x = 0.5, rect_y = - 1, rect_width = 1, rect_height = 2\<rparr>,
       isVertical = True\<rparr>] = (0, 1)"
proof -
  let ?w = "\<lparr>rect = \<lparr>rect_x = 0.5, rect_y = - 1, rect_width = 1, rect_height = 2\<rparr>,
       isVertical = True\<rparr>"
  have x: "fst (resolve_movement p s r walls) =
     (if \<exists>w \<in> set walls. CircleRectIntersect (fst p + fst s, snd p) r (rect w)
      then fst p else fst p + fst s)"
    by (simp add: resolve_movement_def Let_def CollidesAny_iff)
  have z: "snd (resolve_movement p s r walls) =
     (if \<exists>w \<in> set walls.
           CircleRectIntersect (fst (resolve_movement p s r walls), snd p + snd s) r (rect w)
      then snd p else snd p + snd s)"
    by (auto simp: resolve_movement_def Let_def CollidesAny_iff)
  have b: "CollidesAny (1, 0) 0.3 [?w]"
    by (simp add: CircleRectIntersect_def clampf_def)
  have f: "\<not> CollidesAny (0, 1) 0.3 [?w]"
    by (simp add: CircleRectIntersect_def clampf_def)
  have "resolve_movement (0, 0) (1, 1) 0.3 [?w] = (0, 1)"
    by (simp add: resolve_movement_def Let_def CircleRectIntersect_def clampf_def)
  with x z b f show ?thesis by blast
qed

theorem movement_axis_separated_witness:
  "fst (resolve_movement (0, 0) (1, 1) PLAYER_RADIUS
     [\<lparr>rect = \<lparr>rect_x = 0.5, rect_y = - 1, rect_width = 1, rect_height = 2\<rparr>,
       isVertical = True\<rparr>]) = 0 \<and>
   snd (resolve_movement (0, 0) (1, 1) PLAYER_RADIUS
     [\<lparr>rect = \<lparr>rect_x = 0.5, rect_y = - 1, rect_width = 1, rect_height = 2\<rparr>,
       isVertical = True\<rparr>]) = 1"
proof -
  let ?w = "\<lparr>rect = \<lparr>rect_x = 0.5, rect_y = - 1, rect_width = 1, rect_height = 2\<rparr>,
       isVertical = True\<rparr>"
  have x: "CircleRectIntersect (0 + 1, 0) PLAYER_RADIUS (rect ?w)"
    by (simp add: CircleRectIntersect_def clampf_def PLAYER_RADIUS_def)
  have z: "\<not> CircleRectIntersect (0, 0 + 1) PLAYER_RADIUS (rect ?w)"
    by (simp add: CircleRectIntersect_def clampf_def PLAYER_RADIUS_def)
  from movement_axis_separated [of "(0, 0)" "(1, 1)" PLAYER_RADIUS "[?w]"]
  have f: "fst (resolve_movement (0, 0) (1, 1) PLAYER_RADIUS [?w]) = 0"
    using x by simp
  from movement_axis_separated [of "(0, 0)" "(1, 1)" PLAYER_RADIUS "[?w]"]
  have "snd (resolve_movement (0, 0) (1, 1) PLAYER_RADIUS [?w]) = 1"
    using z unfolding f by simp
  with f show ?thesis by simp
qed

section \<open>main.c: pursuers\<close>

text \<open>
  The part of the frame loop that updates the pursuers (the third version of \<open>main.c\<close>).
  \<open>chase_step\<close> is the body of the loop for one pursuer up to the capture test: it steers
  towards the player, perturbs the heading with one value of \<open>rand()\<close> and moves with the
  axis-separated rule; it returns the pursuer, the local \<open>charPos\<close> and the number of calls
  of \<open>rand()\<close>. \<open>update_scary_chars\<close> is the loop over the array \<open>scaryChars\<close> with its
  \<open>break\<close>; it is entered in the state \<open>GAME_STATE_PLAYING\<close> only, which
  \<open>pursuer_phase\<close> checks. A \<open>Vector3\<close> is \<open>(x, y, z)\<close>. The constant \<open>PLAYER_RADIUS\<close> of
  the source is the \<open>float\<close> \<open>0.30f\<close>, here \<open>fl32 PLAYER_RADIUS\<close>.
\<close>

datatype GameState = GAME_STATE_PLAYING | GAME_STATE_WON | GAME_STATE_GAMEOVER

record ScaryCharacter =
  sc_position :: Vector3
  sc_speed :: real
  sc_radius :: real
  sc_height :: real

definition SCARY_CHAR_RANDOMNESS :: real where "SCARY_CHAR_RANDOMNESS = 0.15"

definition RAND_MAX :: nat where "RAND_MAX = 2147483647"

definition chase_step ::
  "(nat \<Rightarrow> nat) \<Rightarrow> nat \<Rightarrow> real \<Rightarrow> WallRect list \<Rightarrow> Vector2 \<Rightarrow> ScaryCharacter \<Rightarrow>
     ScaryCharacter \<times> Vector2 \<times> nat" where
  "chase_step rnd k dt walls playerPos2D ch =
     (let charPos = (fst (sc_position ch), snd (snd (sc_position ch)));
          dir = (fst playerPos2D - fst charPos, snd playerPos2D - snd charPos);
          dist = sqrt (fst dir * fst dir + snd dir * snd dir)
      in if dist > 0.001 then
           (let dir1 = (fst dir / dist, snd dir / dist);
                randomAngle = (real (rnd k) / real RAND_MAX) * 2.0 * 3.14159265359 *
                                SCARY_CHAR_RANDOMNESS;
                cosAngle = cos randomAngle;
                sinAngle = sin randomAngle;
                randomDir = (fst dir1 * cosAngle - snd dir1 * sinAngle,
                             fst dir1 * sinAngle + snd dir1 * cosAngle);
                dir2 = (fst dir1 * (1.0 - SCARY_CHAR_RANDOMNESS) +
                          fst randomDir * SCARY_CHAR_RANDOMNESS,
                        snd dir1 * (1.0 - SCARY_CHAR_RANDOMNESS) +
                          snd randomDir * SCARY_CHAR_RANDOMNESS);
                dirLen = sqrt (fst dir2 * fst dir2 + snd dir2 * snd dir2);
                dir3 = (if dirLen > 0.001 then (fst dir2 / dirLen, snd dir2 / dirLen) else dir2);
                moveStep = (fst dir3 * sc_speed ch * dt, snd dir3 * sc_speed ch * dt);
                charPos1 = resolve_movement charPos moveStep (sc_radius ch) walls
            in (ch\<lparr> sc_position := (fst charPos1, fst (snd (sc_position ch)), snd charPos1) \<rparr>,
                charPos1, k + 1))
         else (ch, charPos, k))"

fun update_scary_chars ::
  "(nat \<Rightarrow> nat) \<Rightarrow> nat \<Rightarrow> real \<Rightarrow> WallRect list \<Rightarrow> Vector2 \<Rightarrow> ScaryCharacter list \<Rightarrow>
     ScaryCharacter list \<times> GameState \<times> nat" where
  "update_scary_chars rnd k dt walls playerPos2D [] = ([], GAME_STATE_PLAYING, k)"
| "update_scary_chars rnd k dt walls playerPos2D (ch # chs) =
     (case chase_step rnd k dt walls playerPos2D ch of
        (ch1, charPos, k1) \<Rightarrow>
          if CircleCircleIntersect playerPos2D (fl32 PLAYER_RADIUS) charPos (sc_radius ch1)
          then (ch1 # chs, GAME_STATE_GAMEOVER, k1)
          else (case update_scary_chars rnd k1 dt walls playerPos2D chs of
                  (chs1, st, k2) \<Rightarrow> (ch1 # chs1, st, k2)))"

definition pursuer_phase ::
  "GameState \<Rightarrow> (nat \<Rightarrow> nat) \<Rightarrow> nat \<Rightarrow> real \<Rightarrow> WallRect list \<Rightarrow> Vector2 \<Rightarrow>
     ScaryCharacter list \<Rightarrow> ScaryCharacter list \<times> GameState \<times> nat" where
  "pursuer_phase gameState rnd k dt walls playerPos2D chs =
     (if gameState = GAME_STATE_PLAYING
      then update_scary_chars rnd k dt walls playerPos2D chs
      else (chs, gameState, k))"

text \<open>The capture test on a pursuer as it stands in the array.\<close>

definition captures :: "Vector2 \<Rightarrow> ScaryCharacter \<Rightarrow> bool" where
  "captures playerPos2D ch =
     CircleCircleIntersect playerPos2D (fl32 PLAYER_RADIUS)
       (fst (sc_position ch), snd (snd (sc_position ch))) (sc_radius ch)"

lemma chase_step_charPos:
  "chase_step rnd k dt walls p ch = (ch1, charPos, k1) \<Longrightarrow>
     charPos = (fst (sc_position ch1), snd (snd (sc_position ch1))) \<and>
     sc_radius ch1 = sc_radius ch"
  by (auto simp: chase_step_def Let_def split: if_splits)

lemma update_scary_chars_props:
  assumes "update_scary_chars rnd k dt walls p chs = (chs1, st, k1)"
  shows "length chs1 = length chs \<and>
         (st = GAME_STATE_PLAYING \<or> st = GAME_STATE_GAMEOVER) \<and>
         (st = GAME_STATE_PLAYING \<longrightarrow> (\<forall>ch \<in> set chs1. \<not> captures p ch)) \<and>
         (st = GAME_STATE_GAMEOVER \<longrightarrow>
            (\<exists>i < length chs. captures p (chs1 ! i) \<and> (\<forall>j < i. \<not> captures p (chs1 ! j)) \<and>
               drop (Suc i) chs1 = drop (Suc i) chs))"
  using assms
proof (induction chs arbitrary: k chs1 st k1)
  case Nil
  then show ?case by simp
next
  case (Cons ch chs)
  obtain ch' charPos k' where cs: "chase_step rnd k dt walls p ch = (ch', charPos, k')"
    by (metis prod_cases3)
  note cp = chase_step_charPos [OF cs]
  have cap: "CircleCircleIntersect p (fl32 PLAYER_RADIUS) charPos (sc_radius ch') = captures p ch'"
    using cp by (simp add: captures_def)
  show ?case
  proof (cases "captures p ch'")
    case True
    then have r: "chs1 = ch' # chs" "st = GAME_STATE_GAMEOVER"
      using Cons.prems cs cap by simp_all
    have "captures p (chs1 ! 0) \<and> (\<forall>j < 0. \<not> captures p (chs1 ! j)) \<and>
        drop (Suc 0) chs1 = drop (Suc 0) (ch # chs)"
      using True r by simp
    then show ?thesis using r by auto
  next
    case False
    obtain chs2 st2 k2 where u: "update_scary_chars rnd k' dt walls p chs = (chs2, st2, k2)"
      by (metis prod_cases3)
    then have r: "chs1 = ch' # chs2" "st = st2"
      using Cons.prems cs cap False by simp_all
    note ih = Cons.IH [OF u]
    have g: "\<exists>i < length (ch # chs). captures p (chs1 ! i) \<and>
        (\<forall>j < i. \<not> captures p (chs1 ! j)) \<and> drop (Suc i) chs1 = drop (Suc i) (ch # chs)"
      if "st = GAME_STATE_GAMEOVER"
    proof -
      from ih that r obtain i where i: "i < length chs" "captures p (chs2 ! i)"
        "\<forall>j < i. \<not> captures p (chs2 ! j)" "drop (Suc i) chs2 = drop (Suc i) chs"
        by auto
      have "\<forall>j < Suc i. \<not> captures p (chs1 ! j)"
        using i(3) False r by (auto simp: less_Suc_eq_0_disj)
      then show ?thesis using i r by (intro exI [of _ "Suc i"]) simp
    qed
    show ?thesis using ih r False g by auto
  qed
qed

text \<open>
  C8 (as amended). In the state \<open>GAME_STATE_PLAYING\<close> the pursuers are taken in order; each
  is moved and then tested against the player with the circle test as binary32 evaluates
  it: the rounded sum of the rounded squares of the rounded coordinate differences is
  compared with the rounded square of the rounded sum of the radii. The first pursuer that
  passes the test sets the state to \<open>GAME_STATE_GAMEOVER\<close> and ends the loop: the pursuers
  after it are left as they were, neither moved nor tested. If no pursuer passes the test
  the state stays \<open>GAME_STATE_PLAYING\<close>. The formula of the test is stated for coordinates
  and radii of magnitude at most \<open>2^60\<close>, for which no operation overflows.
\<close>

theorem capture_check_first_pursuer:
  assumes "pursuer_phase GAME_STATE_PLAYING rnd k dt walls p chs = (chs1, st, k1)"
  shows "length chs1 = length chs \<and>
         (st = GAME_STATE_GAMEOVER \<longleftrightarrow> (\<exists>i < length chs1. captures p (chs1 ! i))) \<and>
         (st \<noteq> GAME_STATE_GAMEOVER \<longrightarrow> st = GAME_STATE_PLAYING) \<and>
         (st = GAME_STATE_GAMEOVER \<longrightarrow>
            (\<exists>i < length chs. captures p (chs1 ! i) \<and> (\<forall>j < i. \<not> captures p (chs1 ! j)) \<and>
               drop (Suc i) chs1 = drop (Suc i) chs)) \<and>
         (\<forall>ch. \<bar>fst p\<bar> \<le> 2 ^ 60 \<and> \<bar>snd p\<bar> \<le> 2 ^ 60 \<and>
               \<bar>fst (sc_position ch)\<bar> \<le> 2 ^ 60 \<and> \<bar>snd (snd (sc_position ch))\<bar> \<le> 2 ^ 60 \<and>
               0 \<le> sc_radius ch \<and> sc_radius ch \<le> 2 ^ 60 \<longrightarrow>
            (captures p ch \<longleftrightarrow>
               fadd (fmul (fsub (fst p) (fst (sc_position ch))) (fsub (fst p) (fst (sc_position ch))))
                    (fmul (fsub (snd p) (snd (snd (sc_position ch))))
                          (fsub (snd p) (snd (snd (sc_position ch)))))
                 \<le> fmul (fadd (fl32 PLAYER_RADIUS) (sc_radius ch))
                          (fadd (fl32 PLAYER_RADIUS) (sc_radius ch))))"
proof -
  from assms have u: "update_scary_chars rnd k dt walls p chs = (chs1, st, k1)"
    by (simp add: pursuer_phase_def)
  note pr = update_scary_chars_props [OF u]
  have "(st = GAME_STATE_GAMEOVER) = (\<exists>i < length chs1. captures p (chs1 ! i))"
  proof
    assume "st = GAME_STATE_GAMEOVER"
    with pr show "\<exists>i < length chs1. captures p (chs1 ! i)" by auto
  next
    assume "\<exists>i < length chs1. captures p (chs1 ! i)"
    then have "\<not> (\<forall>ch \<in> set chs1. \<not> captures p ch)" by auto
    with pr show "st = GAME_STATE_GAMEOVER" by blast
  qed
  moreover have "captures p ch \<longleftrightarrow>
            fadd (fmul (fsub (fst p) (fst (sc_position ch))) (fsub (fst p) (fst (sc_position ch))))
                 (fmul (fsub (snd p) (snd (snd (sc_position ch))))
                       (fsub (snd p) (snd (snd (sc_position ch)))))
              \<le> fmul (fadd (fl32 PLAYER_RADIUS) (sc_radius ch))
                       (fadd (fl32 PLAYER_RADIUS) (sc_radius ch))" for ch
    by (simp add: captures_def CircleCircleIntersect_def Let_def)
  ultimately show ?thesis using pr by blast
qed

text \<open>
  The binary32 values of the test for the radii \<open>0.30f\<close> and \<open>0.35f\<close>, the player at the
  origin and a pursuer at \<open>(0.16f, 0.63f)\<close>.
\<close>

lemma capture_test_values:
  shows "fl32 PLAYER_RADIUS = 5033165 / 16777216"
    and "fmul (fadd (5033165 / 16777216) (11744051 / 33554432)) (fadd (5033165 / 16777216) (11744051 / 33554432)) = 7088373 / 16777216"
    and "fadd (fmul (- (5368709 / 33554432)) (- (5368709 / 33554432))) (fmul (- (5284823 / 8388608)) (- (5284823 / 8388608))) = 14176747 / 33554432"
proof -
  have pr: "fl32 (3 / 10) = 5033165 / 16777216"
  proof -
    have "fl32 (3 / 10) = of_int (rne ((3 / 10) / 2 powi (- 2 - 23))) * 2 powi (- 2 - 23)"
      by (rule fl32_eval) simp_all
    also have "\<dots> = 5033165 / 16777216" by (simp add: rne_def)
    finally show ?thesis .
  qed
  have xx: "fmul (- (5368709 / 33554432)) (- (5368709 / 33554432)) = 13743895 / 536870912"
  proof -
    have "fmul (- (5368709 / 33554432)) (- (5368709 / 33554432)) = fl32 (28823036326681 / 1125899906842624)"
      by (simp add: fadd_def fsub_def fmul_def fdiv_def)
    also have "\<dots> = of_int (rne ((28823036326681 / 1125899906842624) / 2 powi (- 6 - 23))) * 2 powi (- 6 - 23)"
      by (rule fl32_eval) simp_all
    also have "\<dots> = 13743895 / 536870912" by (simp add: rne_def)
    finally show ?thesis .
  qed
  have zz: "fmul (- (5284823 / 8388608)) (- (5284823 / 8388608)) = 6658877 / 16777216"
  proof -
    have "fmul (- (5284823 / 8388608)) (- (5284823 / 8388608)) = fl32 (27929354141329 / 70368744177664)"
      by (simp add: fadd_def fsub_def fmul_def fdiv_def)
    also have "\<dots> = of_int (rne ((27929354141329 / 70368744177664) / 2 powi (- 2 - 23))) * 2 powi (- 2 - 23)"
      by (rule fl32_eval) simp_all
    also have "\<dots> = 6658877 / 16777216" by (simp add: rne_def)
    finally show ?thesis .
  qed
  have ds: "fadd (13743895 / 536870912) (6658877 / 16777216) = 14176747 / 33554432"
  proof -
    have "fadd (13743895 / 536870912) (6658877 / 16777216) = fl32 (226827959 / 536870912)"
      by (simp add: fadd_def fsub_def fmul_def fdiv_def)
    also have "\<dots> = of_int (rne ((226827959 / 536870912) / 2 powi (- 2 - 23))) * 2 powi (- 2 - 23)"
      by (rule fl32_eval) simp_all
    also have "\<dots> = 14176747 / 33554432" by (simp add: rne_def)
    finally show ?thesis .
  qed
  have rs: "fadd (5033165 / 16777216) (11744051 / 33554432) = 5452595 / 8388608"
  proof -
    have "fadd (5033165 / 16777216) (11744051 / 33554432) = fl32 (21810381 / 33554432)"
      by (simp add: fadd_def fsub_def fmul_def fdiv_def)
    also have "\<dots> = of_int (rne ((21810381 / 33554432) / 2 powi (- 1 - 23))) * 2 powi (- 1 - 23)"
      by (rule fl32_eval) simp_all
    also have "\<dots> = 5452595 / 8388608" by (simp add: rne_def)
    finally show ?thesis .
  qed
  have rr: "fmul (5452595 / 8388608) (5452595 / 8388608) = 7088373 / 16777216"
  proof -
    have "fmul (5452595 / 8388608) (5452595 / 8388608) = fl32 (29730792234025 / 70368744177664)"
      by (simp add: fadd_def fsub_def fmul_def fdiv_def)
    also have "\<dots> = of_int (rne ((29730792234025 / 70368744177664) / 2 powi (- 2 - 23))) * 2 powi (- 2 - 23)"
      by (rule fl32_eval) simp_all
    also have "\<dots> = 7088373 / 16777216" by (simp add: rne_def)
    finally show ?thesis .
  qed
  show "fl32 PLAYER_RADIUS = 5033165 / 16777216" by (simp add: PLAYER_RADIUS_def pr)
  show "fmul (fadd (5033165 / 16777216) (11744051 / 33554432)) (fadd (5033165 / 16777216) (11744051 / 33554432)) = 7088373 / 16777216"
    unfolding rs rr ..
  show "fadd (fmul (- (5368709 / 33554432)) (- (5368709 / 33554432))) (fmul (- (5284823 / 8388608)) (- (5284823 / 8388608))) = 14176747 / 33554432"
    unfolding xx zz ds ..
qed

theorem capture_check_first_pursuer_witness:
  "pursuer_phase GAME_STATE_PLAYING (rand_const 0) 0 (1 / 64) [] (0, 0)
     [\<lparr>sc_position = (0, 0, 0), sc_speed = 11 / 4, sc_radius = 11744051 / 33554432, sc_height = 2\<rparr>,
      \<lparr>sc_position = (9, 0, 9), sc_speed = 11 / 4, sc_radius = 11744051 / 33554432, sc_height = 2\<rparr>] =
     ([\<lparr>sc_position = (0, 0, 0), sc_speed = 11 / 4, sc_radius = 11744051 / 33554432, sc_height = 2\<rparr>,
       \<lparr>sc_position = (9, 0, 9), sc_speed = 11 / 4, sc_radius = 11744051 / 33554432, sc_height = 2\<rparr>],
      GAME_STATE_GAMEOVER, 0) \<and>
   captures (0, 0)
     \<lparr>sc_position = (0, 0, 0), sc_speed = 11 / 4, sc_radius = 11744051 / 33554432, sc_height = 2\<rparr>"
proof -
  let ?a = "\<lparr>sc_position = (0, 0, 0), sc_speed = 11 / 4, sc_radius = 11744051 / 33554432, sc_height = 2\<rparr>"
  let ?b = "\<lparr>sc_position = (9, 0, 9), sc_speed = 11 / 4, sc_radius = 11744051 / 33554432, sc_height = 2\<rparr>"
  have c: "chase_step (rand_const 0) 0 (1 / 64) [] (0, 0) ?a = (?a, (0, 0), 0)"
    by (simp add: chase_step_def Let_def)
  have z: "fsub 0 0 = 0" "fmul 0 0 = 0" "fadd 0 0 = 0"
    by (simp_all add: fsub_def fmul_def fadd_def fl32_0)
  have i: "CircleCircleIntersect (0, 0) (fl32 PLAYER_RADIUS) (0, 0) (sc_radius ?a)"
    by (simp add: CircleCircleIntersect_def Let_def z capture_test_values)
  have e: "pursuer_phase GAME_STATE_PLAYING (rand_const 0) 0 (1 / 64) [] (0, 0) [?a, ?b] =
      ([?a, ?b], GAME_STATE_GAMEOVER, 0)"
    unfolding pursuer_phase_def update_scary_chars.simps c using i by simp
  from capture_check_first_pursuer [OF e]
  have "\<exists>i < length [?a, ?b]. captures (0, 0) ([?a, ?b] ! i) \<and>
      (\<forall>j < i. \<not> captures (0, 0) ([?a, ?b] ! j)) \<and>
      drop (Suc i) [?a, ?b] = drop (Suc i) [?a, ?b]"
    by blast
  moreover have n: "fsub 0 9 = - 9" "fmul (- 9) (- 9) = 81" "fadd 81 81 = 162"
    using fl32_of_int [of "- 9"] fl32_of_int [of 81] fl32_of_int [of 162]
    by (simp_all add: fsub_def fmul_def fadd_def)
  have "\<not> captures (0, 0) ?b"
    by (simp add: captures_def CircleCircleIntersect_def Let_def n capture_test_values)
  ultimately have "captures (0, 0) ?a"
    by (auto simp: less_Suc_eq numeral_2_eq_2)
  with e show ?thesis by simp
qed

text \<open>
  The claim C8 as stated takes the exact inequality as the test. For the player at the
  origin with the radius \<open>0.30f\<close> and a pursuer of the radius \<open>0.35f\<close> standing at
  \<open>(0.16f, 0.63f)\<close>, the squared distance of the two centres is less than the square of the
  sum of the radii, so the circles intersect, but the rounded squared distance
  \<open>14176747 / 2^25\<close> exceeds the rounded square \<open>14176746 / 2^25\<close>: the test fails. With a
  frame time of 0 the pursuer does not move, and the frame ends in \<open>GAME_STATE_PLAYING\<close>.
\<close>

theorem capture_rounding_counterexample:
  "(0 - 5368709 / 33554432)\<^sup>2 + (0 - 5284823 / 8388608)\<^sup>2 <
     ((5033165 / 16777216 + 11744051 / 33554432)\<^sup>2 :: real) \<and>
   \<not> CircleCircleIntersect (0, 0) (5033165 / 16777216)
       (5368709 / 33554432, 5284823 / 8388608) (11744051 / 33554432) \<and>
   \<not> captures (0, 0)
       \<lparr>sc_position = (5368709 / 33554432, 0, 5284823 / 8388608), sc_speed = 11 / 4, sc_radius = 11744051 / 33554432, sc_height = 2\<rparr> \<and>
   snd (pursuer_phase GAME_STATE_PLAYING (rand_const 0) 0 0 [] (0, 0)
       [\<lparr>sc_position = (5368709 / 33554432, 0, 5284823 / 8388608), sc_speed = 11 / 4, sc_radius = 11744051 / 33554432, sc_height = 2\<rparr>]) =
     (GAME_STATE_PLAYING, 1)"
proof -
  let ?c = "\<lparr>sc_position = (5368709 / 33554432, 0, 5284823 / 8388608), sc_speed = 11 / 4, sc_radius = 11744051 / 33554432, sc_height = 2\<rparr>"
  have 1: "(0 - 5368709 / 33554432)\<^sup>2 + (0 - 5284823 / 8388608)\<^sup>2 <
     ((5033165 / 16777216 + 11744051 / 33554432)\<^sup>2 :: real)"
    by (simp add: power2_eq_square)
  have m: "fsub 0 (5368709 / 33554432) = - (5368709 / 33554432)" "fsub 0 (5284823 / 8388608) = - (5284823 / 8388608)"
    using fl32_exact [of "- 5368709" "- 25"] fl32_exact [of "- 5284823" "- 23"]
    by (simp_all add: fsub_def)
  have 2: "\<not> CircleCircleIntersect (0, 0) (5033165 / 16777216)
       (5368709 / 33554432, 5284823 / 8388608) (11744051 / 33554432)"
    by (simp add: CircleCircleIntersect_def Let_def m capture_test_values)
  then have 3: "\<not> captures (0, 0) ?c"
    by (simp add: captures_def capture_test_values)
  obtain ch1 pos k1 where cs: "chase_step (rand_const 0) 0 0 [] (0, 0) ?c = (ch1, pos, k1)"
    by (metis prod_cases3)
  have mv: "resolve_movement q (0, 0) r [] = q" for q r
    by (simp add: resolve_movement_def Let_def)
  have "(1 / 1000 :: real) < sqrt (475692702587945 / 1125899906842624)"
    by (rule real_less_rsqrt) (simp add: power2_eq_square)
  then have far: "1 < sqrt (475692702587945 / 1125899906842624) * 1000" by simp
  have "ch1 = ?c \<and> pos = (5368709 / 33554432, 5284823 / 8388608) \<and> k1 = 1"
    using cs far by (auto simp: chase_step_def Let_def mv rand_const_def split: if_splits)
  then have "chase_step (rand_const 0) 0 0 [] (0, 0) ?c = (?c, (5368709 / 33554432, 5284823 / 8388608), 1)"
    using cs by simp
  then have "pursuer_phase GAME_STATE_PLAYING (rand_const 0) 0 0 [] (0, 0) [?c] =
      ([?c], GAME_STATE_PLAYING, 1)"
    unfolding pursuer_phase_def update_scary_chars.simps
    using 2 by (simp add: capture_test_values)
  then show ?thesis using 1 2 3 by simp
qed

section \<open>main.c: placing the pursuers\<close>




























section \<open>maze.c: wall rectangles\<close>

text \<open>
  \<open>Maze_GetWallRects\<close> writes into the caller's buffer \<open>outRects\<close>, whose capacity is
  \<open>maxRects\<close>, and returns the number of entries written. The model returns the entries
  \<open>outRects[0 .. count - 1]\<close> as a list, so the returned count is its length. The loop
  conditions test \<open>count < maxRects\<close> once per cell, while the body of a cell writes up to
  four entries without a test: \<open>emit\<close> is one write \<open>outRects[count] = r; count++\<close>, and
  the result \<open>None\<close> stands for a write at an index \<open>count \<ge> maxRects\<close>, outside the
  buffer. \<open>out_ok\<close> says that \<open>outRects\<close> is not \<open>NULL\<close>.
\<close>

definition wallThick :: real where "wallThick = 0.1"

definition north_rect :: "Maze \<Rightarrow> int \<Rightarrow> int \<Rightarrow> WallRect" where
  "north_rect maze x y =
     (let cellCenterX = (of_int x - of_int (width maze) * 0.5 + 0.5) * cellSize maze;
          cellCenterZ = (of_int y - of_int (height maze) * 0.5 + 0.5) * cellSize maze;
          halfCell = cellSize maze * 0.5
      in \<lparr> rect = \<lparr> rect_x = cellCenterX - halfCell - wallThick * 0.5,
                     rect_y = cellCenterZ - halfCell - wallThick * 0.5,
                     rect_width = cellSize maze + wallThick,
                     rect_height = wallThick \<rparr>,
           isVertical = False \<rparr>)"

definition west_rect :: "Maze \<Rightarrow> int \<Rightarrow> int \<Rightarrow> WallRect" where
  "west_rect maze x y =
     (let cellCenterX = (of_int x - of_int (width maze) * 0.5 + 0.5) * cellSize maze;
          cellCenterZ = (of_int y - of_int (height maze) * 0.5 + 0.5) * cellSize maze;
          halfCell = cellSize maze * 0.5
      in \<lparr> rect = \<lparr> rect_x = cellCenterX - halfCell - wallThick * 0.5,
                     rect_y = cellCenterZ - halfCell - wallThick * 0.5,
                     rect_width = wallThick,
                     rect_height = cellSize maze + wallThick \<rparr>,
           isVertical = True \<rparr>)"

definition east_rect :: "Maze \<Rightarrow> int \<Rightarrow> int \<Rightarrow> WallRect" where
  "east_rect maze x y =
     (let cellCenterX = (of_int x - of_int (width maze) * 0.5 + 0.5) * cellSize maze;
          cellCenterZ = (of_int y - of_int (height maze) * 0.5 + 0.5) * cellSize maze;
          halfCell = cellSize maze * 0.5
      in \<lparr> rect = \<lparr> rect_x = cellCenterX + halfCell - wallThick * 0.5,
                     rect_y = cellCenterZ - halfCell - wallThick * 0.5,
                     rect_width = wallThick,
                     rect_height = cellSize maze + wallThick \<rparr>,
           isVertical = True \<rparr>)"

definition south_rect :: "Maze \<Rightarrow> int \<Rightarrow> int \<Rightarrow> WallRect" where
  "south_rect maze x y =
     (let cellCenterX = (of_int x - of_int (width maze) * 0.5 + 0.5) * cellSize maze;
          cellCenterZ = (of_int y - of_int (height maze) * 0.5 + 0.5) * cellSize maze;
          halfCell = cellSize maze * 0.5
      in \<lparr> rect = \<lparr> rect_x = cellCenterX - halfCell - wallThick * 0.5,
                     rect_y = cellCenterZ + halfCell - wallThick * 0.5,
                     rect_width = cellSize maze + wallThick,
                     rect_height = wallThick \<rparr>,
           isVertical = False \<rparr>)"

definition emit :: "int \<Rightarrow> WallRect \<Rightarrow> WallRect list option \<Rightarrow> WallRect list option" where
  "emit maxRects r out =
     (case out of
        None \<Rightarrow> None
      | Some rs \<Rightarrow> if int (length rs) < maxRects then Some (rs @ [r]) else None)"

text \<open>The body of the inner loop for the cell \<open>(x, y)\<close>.\<close>

definition cell_body :: "Maze \<Rightarrow> int \<Rightarrow> int \<Rightarrow> int \<Rightarrow> WallRect list \<Rightarrow> WallRect list option" where
  "cell_body maze maxRects x y rs =
     (let o1 = (if Maze_HasWall maze x y MAZE_NORTH
                then emit maxRects (north_rect maze x y) (Some rs) else Some rs);
          o2 = (if Maze_HasWall maze x y MAZE_WEST
                then emit maxRects (west_rect maze x y) o1 else o1);
          o3 = (if x = width maze - 1 \<and> Maze_HasWall maze x y MAZE_EAST
                then emit maxRects (east_rect maze x y) o2 else o2);
          o4 = (if y = height maze - 1 \<and> Maze_HasWall maze x y MAZE_SOUTH
                then emit maxRects (south_rect maze x y) o3 else o3)
      in o4)"

function row_loop :: "Maze \<Rightarrow> int \<Rightarrow> int \<Rightarrow> int \<Rightarrow> WallRect list \<Rightarrow> WallRect list option" where
  "row_loop maze maxRects y x rs =
     (if x < width maze \<and> int (length rs) < maxRects then
        (case cell_body maze maxRects x y rs of
           None \<Rightarrow> None
         | Some rs1 \<Rightarrow> row_loop maze maxRects y (x + 1) rs1)
      else Some rs)"
  by pat_completeness auto
termination
  by (relation "measure (\<lambda>(maze, maxRects, y, x, rs). nat (width maze - x))") auto

declare row_loop.simps [simp del]

function rows_loop :: "Maze \<Rightarrow> int \<Rightarrow> int \<Rightarrow> WallRect list \<Rightarrow> WallRect list option" where
  "rows_loop maze maxRects y rs =
     (if y < height maze \<and> int (length rs) < maxRects then
        (case row_loop maze maxRects y 0 rs of
           None \<Rightarrow> None
         | Some rs1 \<Rightarrow> rows_loop maze maxRects (y + 1) rs1)
      else Some rs)"
  by pat_completeness auto
termination
  by (relation "measure (\<lambda>(maze, maxRects, y, rs). nat (height maze - y))") auto

declare rows_loop.simps [simp del]

definition Maze_GetWallRects :: "Maze \<Rightarrow> bool \<Rightarrow> int \<Rightarrow> WallRect list option" where
  "Maze_GetWallRects maze out_ok maxRects =
     (if \<not> out_ok \<or> maxRects \<le> 0 then Some [] else rows_loop maze maxRects 0 [])"

text \<open>
  The rectangles in the words of the specification: for every cell in row-major order, one
  for its North wall and one for its West wall if present, one for its East wall if the
  cell is in the last column, one for its South wall if it is in the last row.
\<close>

definition cell_rects :: "Maze \<Rightarrow> int \<times> int \<Rightarrow> WallRect list" where
  "cell_rects maze c =
     (case c of (x, y) \<Rightarrow>
        (if Maze_HasWall maze x y MAZE_NORTH then [north_rect maze x y] else []) @
        (if Maze_HasWall maze x y MAZE_WEST then [west_rect maze x y] else []) @
        (if x = width maze - 1 \<and> Maze_HasWall maze x y MAZE_EAST then [east_rect maze x y] else []) @
        (if y = height maze - 1 \<and> Maze_HasWall maze x y MAZE_SOUTH then [south_rect maze x y] else []))"

definition wall_segments :: "Maze \<Rightarrow> WallRect list" where
  "wall_segments maze = concat (map (cell_rects maze) (all_cells maze))"

lemma emit_if:
  "int (length acc + length (if b then [r] else [])) \<le> maxRects \<Longrightarrow>
     (if b then emit maxRects r (Some acc) else Some acc) = Some (acc @ (if b then [r] else []))"
  by (cases b) (simp_all add: emit_def)

lemma cell_body_ok:
  assumes "int (length rs + length (cell_rects m (x, y))) \<le> maxRects"
  shows "cell_body m maxRects x y rs = Some (rs @ cell_rects m (x, y))"
proof -
  let ?n = "if Maze_HasWall m x y MAZE_NORTH then [north_rect m x y] else []"
  let ?w = "if Maze_HasWall m x y MAZE_WEST then [west_rect m x y] else []"
  let ?e = "if x = width m - 1 \<and> Maze_HasWall m x y MAZE_EAST then [east_rect m x y] else []"
  let ?s = "if y = height m - 1 \<and> Maze_HasWall m x y MAZE_SOUTH then [south_rect m x y] else []"
  have cr: "cell_rects m (x, y) = ?n @ ?w @ ?e @ ?s"
    by (simp add: cell_rects_def)
  have len: "int (length rs + (length ?n + (length ?w + (length ?e + length ?s)))) \<le> maxRects"
    using assms unfolding cr by (simp only: length_append)
  have l1: "int (length rs + length ?n) \<le> maxRects"
    and l2: "int (length (rs @ ?n) + length ?w) \<le> maxRects"
    and l3: "int (length ((rs @ ?n) @ ?w) + length ?e) \<le> maxRects"
    and l4: "int (length (((rs @ ?n) @ ?w) @ ?e) + length ?s) \<le> maxRects"
    using len by (simp_all only: length_append add.assoc)
  show ?thesis
    unfolding cell_body_def Let_def emit_if [OF l1] emit_if [OF l2] emit_if [OF l3]
      emit_if [OF l4] cr
    by (simp only: append_assoc)
qed

definition row_rest :: "Maze \<Rightarrow> int \<Rightarrow> int \<Rightarrow> WallRect list" where
  "row_rest m y x = concat (map (\<lambda>x'. cell_rects m (x', y)) [x..width m - 1])"

definition rows_rest :: "Maze \<Rightarrow> int \<Rightarrow> WallRect list" where
  "rows_rest m y = concat (map (\<lambda>y'. row_rest m y' 0) [y..height m - 1])"

lemma row_rest_step: "x < width m \<Longrightarrow> row_rest m y x = cell_rects m (x, y) @ row_rest m y (x + 1)"
  by (simp add: row_rest_def upto_rec1 [of x])

lemma row_rest_end: "\<not> x < width m \<Longrightarrow> row_rest m y x = []"
  by (simp add: row_rest_def)

lemma rows_rest_step: "y < height m \<Longrightarrow> rows_rest m y = row_rest m y 0 @ rows_rest m (y + 1)"
  by (simp add: rows_rest_def upto_rec1 [of y])

lemma rows_rest_end: "\<not> y < height m \<Longrightarrow> rows_rest m y = []"
  by (simp add: rows_rest_def)

lemma row_loop_ok:
  "int (length rs + length (row_rest m y x)) \<le> maxRects \<Longrightarrow>
     row_loop m maxRects y x rs = Some (rs @ row_rest m y x)"
proof (induction m maxRects y x rs rule: row_loop.induct)
  case (1 m maxRects y x rs)
  show ?case
  proof (cases "x < width m")
    case False
    then show ?thesis by (subst row_loop.simps) (simp add: row_rest_end)
  next
    case True
    note st = row_rest_step [OF True, of y]
    show ?thesis
    proof (cases "int (length rs) < maxRects")
      case False
      then have "length (row_rest m y x) = 0" using "1.prems" by linarith
      then have "row_rest m y x = []" by simp
      then show ?thesis using False by (subst row_loop.simps) simp
    next
      case lt: True
      have b: "cell_body m maxRects x y rs = Some (rs @ cell_rects m (x, y))"
        using "1.prems" by (intro cell_body_ok) (simp add: st)
      have "row_loop m maxRects y (x + 1) (rs @ cell_rects m (x, y)) =
          Some ((rs @ cell_rects m (x, y)) @ row_rest m y (x + 1))"
        using "1.prems" True lt b by (intro "1.IH") (simp_all add: st)
      then show ?thesis
        using True lt b by (subst row_loop.simps) (simp add: st)
    qed
  qed
qed

lemma rows_loop_ok:
  "int (length rs + length (rows_rest m y)) \<le> maxRects \<Longrightarrow>
     rows_loop m maxRects y rs = Some (rs @ rows_rest m y)"
proof (induction m maxRects y rs rule: rows_loop.induct)
  case (1 m maxRects y rs)
  show ?case
  proof (cases "y < height m")
    case False
    then show ?thesis by (subst rows_loop.simps) (simp add: rows_rest_end)
  next
    case True
    note st = rows_rest_step [OF True]
    show ?thesis
    proof (cases "int (length rs) < maxRects")
      case False
      then have "length (rows_rest m y) = 0" using "1.prems" by linarith
      then have "rows_rest m y = []" by simp
      then show ?thesis using False by (subst rows_loop.simps) simp
    next
      case lt: True
      have b: "row_loop m maxRects y 0 rs = Some (rs @ row_rest m y 0)"
        using "1.prems" by (intro row_loop_ok) (simp add: st)
      have "rows_loop m maxRects (y + 1) (rs @ row_rest m y 0) =
          Some ((rs @ row_rest m y 0) @ rows_rest m (y + 1))"
        using "1.prems" True lt b by (intro "1.IH") (simp_all add: st)
      then show ?thesis
        using True lt b by (subst rows_loop.simps) (simp add: st)
    qed
  qed
qed

lemma concat_map_concat:
  "concat (map f (concat xss)) = concat (map (\<lambda>xs. concat (map f xs)) xss)"
  by (induction xss) auto

lemma wall_segments_rows: "wall_segments m = rows_rest m 0"
  by (simp add: wall_segments_def all_cells_def rows_rest_def row_rest_def concat_map_concat
      comp_def)

lemma GetWallRects_enough_room:
  assumes "int (length (wall_segments m)) \<le> maxRects"
  shows "Maze_GetWallRects m True maxRects = Some (wall_segments m)"
proof (cases "maxRects \<le> 0")
  case True
  then have "length (wall_segments m) = 0" using assms by linarith
  then have "wall_segments m = []" by simp
  then show ?thesis using True by (simp add: Maze_GetWallRects_def)
next
  case False
  then show ?thesis
    using rows_loop_ok [of "[]" m 0 maxRects] assms
    by (simp add: Maze_GetWallRects_def wall_segments_rows)
qed

lemma length_cell_rects: "length (cell_rects m c) \<le> 4"
  by (cases c) (simp add: cell_rects_def)

lemma length_concat_le:
  "(\<And>x. length (f x) \<le> n) \<Longrightarrow> length (concat (map f xs)) \<le> n * length xs"
proof (induction xs)
  case Nil
  then show ?case by simp
next
  case (Cons x xs)
  then have "length (concat (map f xs)) \<le> n * length xs" by simp
  moreover have "length (f x) \<le> n" by (rule Cons.prems)
  ultimately show ?case by simp
qed

lemma length_wall_segments:
  "length (wall_segments m) \<le> 4 * (nat (width m) * nat (height m))"
  unfolding wall_segments_def
  using length_concat_le [of "cell_rects m" 4 "all_cells m"] length_cell_rects [of m]
  by (simp add: length_all_cells)

subsection \<open>Geometry of the rectangles\<close>

text \<open>
  The rectangle with centre \<open>(cx, cz)\<close> that reaches \<open>hw\<close> to both sides along X and \<open>hh\<close> to
  both sides along Z.
\<close>

definition centered_rect :: "real \<Rightarrow> real \<Rightarrow> real \<Rightarrow> real \<Rightarrow> Rectangle" where
  "centered_rect cx cz hw hh =
     \<lparr> rect_x = cx - hw, rect_y = cz - hh, rect_width = 2 * hw, rect_height = 2 * hh \<rparr>"

lemma rect_geometry:
  "rect (north_rect m x y) =
     centered_rect (fst (Maze_CellToWorld m x y)) (snd (Maze_CellToWorld m x y) - cellSize m / 2)
       (cellSize m / 2 + wallThick / 2) (wallThick / 2)"
  "rect (south_rect m x y) =
     centered_rect (fst (Maze_CellToWorld m x y)) (snd (Maze_CellToWorld m x y) + cellSize m / 2)
       (cellSize m / 2 + wallThick / 2) (wallThick / 2)"
  "rect (west_rect m x y) =
     centered_rect (fst (Maze_CellToWorld m x y) - cellSize m / 2) (snd (Maze_CellToWorld m x y))
       (wallThick / 2) (cellSize m / 2 + wallThick / 2)"
  "rect (east_rect m x y) =
     centered_rect (fst (Maze_CellToWorld m x y) + cellSize m / 2) (snd (Maze_CellToWorld m x y))
       (wallThick / 2) (cellSize m / 2 + wallThick / 2)"
  by (simp_all add: north_rect_def south_rect_def west_rect_def east_rect_def
      centered_rect_def Maze_CellToWorld_def Let_def algebra_simps)

lemma east_is_west: "east_rect m x y = west_rect m (x + 1) y"
  by (simp add: east_rect_def west_rect_def Let_def algebra_simps)

lemma south_is_north: "south_rect m x y = north_rect m x (y + 1)"
  by (simp add: south_rect_def north_rect_def Let_def algebra_simps)

lemma north_rect_inj:
  assumes "cellSize m \<noteq> 0" "north_rect m x y = north_rect m x' y'"
  shows "x = x' \<and> y = y'"
proof -
  from assms(2) have
    "rect_x (rect (north_rect m x y)) = rect_x (rect (north_rect m x' y'))"
    "rect_y (rect (north_rect m x y)) = rect_y (rect (north_rect m x' y'))"
    by simp_all
  then have "of_int x * cellSize m = of_int x' * cellSize m"
    "of_int y * cellSize m = of_int y' * cellSize m"
    by (simp_all add: north_rect_def Let_def algebra_simps)
  then show ?thesis using assms(1) by simp
qed

lemma west_rect_inj:
  assumes "cellSize m \<noteq> 0" "west_rect m x y = west_rect m x' y'"
  shows "x = x' \<and> y = y'"
proof -
  from assms(2) have
    "rect_x (rect (west_rect m x y)) = rect_x (rect (west_rect m x' y'))"
    "rect_y (rect (west_rect m x y)) = rect_y (rect (west_rect m x' y'))"
    by simp_all
  then have "of_int x * cellSize m = of_int x' * cellSize m"
    "of_int y * cellSize m = of_int y' * cellSize m"
    by (simp_all add: west_rect_def Let_def algebra_simps)
  then show ?thesis using assms(1) by simp
qed

lemma north_neq_west: "north_rect m x y \<noteq> west_rect m x' y'"
proof
  assume "north_rect m x y = west_rect m x' y'"
  then have "isVertical (north_rect m x y) = isVertical (west_rect m x' y')" by simp
  then show False by (simp add: north_rect_def west_rect_def Let_def)
qed

subsection \<open>No rectangle is emitted twice\<close>

text \<open>
  Every emitted rectangle is named by its orientation and the cell whose north-west
  corner it starts from: the East wall of a cell of the last column is the West side of
  column \<open>width\<close>, the South wall of a cell of the last row is the North side of row
  \<open>height\<close>.
\<close>

definition cell_tags :: "Maze \<Rightarrow> int \<times> int \<Rightarrow> (bool \<times> int \<times> int) list" where
  "cell_tags m c =
     (case c of (x, y) \<Rightarrow>
        (if Maze_HasWall m x y MAZE_NORTH then [(False, x, y)] else []) @
        (if Maze_HasWall m x y MAZE_WEST then [(True, x, y)] else []) @
        (if x = width m - 1 \<and> Maze_HasWall m x y MAZE_EAST then [(True, x + 1, y)] else []) @
        (if y = height m - 1 \<and> Maze_HasWall m x y MAZE_SOUTH then [(False, x, y + 1)] else []))"

definition seg_of :: "Maze \<Rightarrow> bool \<times> int \<times> int \<Rightarrow> WallRect" where
  "seg_of m t = (case t of (v, x, y) \<Rightarrow> if v then west_rect m x y else north_rect m x y)"

lemma cell_rects_tags: "cell_rects m c = map (seg_of m) (cell_tags m c)"
  by (cases c) (auto simp: cell_rects_def cell_tags_def seg_of_def east_is_west south_is_north)

lemma seg_of_inj: "cellSize m \<noteq> 0 \<Longrightarrow> inj (seg_of m)"
proof (rule injI)
  fix s t assume cs: "cellSize m \<noteq> 0" and e: "seg_of m s = seg_of m t"
  obtain v x y v' x' y' where st: "s = (v, x, y)" "t = (v', x', y')"
    by (cases s; cases t) auto
  show "s = t"
    using e north_rect_inj [OF cs, of x y x' y'] west_rect_inj [OF cs, of x y x' y']
      north_neq_west [of m x y x' y'] north_neq_west [of m x' y' x y]
    unfolding st seg_of_def by (cases v; cases v') auto
qed

lemma distinct_concat_map:
  "distinct xs \<Longrightarrow> (\<And>x. x \<in> set xs \<Longrightarrow> distinct (f x)) \<Longrightarrow>
     (\<And>x y. x \<in> set xs \<Longrightarrow> y \<in> set xs \<Longrightarrow> x \<noteq> y \<Longrightarrow> set (f x) \<inter> set (f y) = {}) \<Longrightarrow>
     distinct (concat (map f xs))"
proof (induction xs)
  case Nil
  then show ?case by simp
next
  case (Cons a xs)
  have "distinct (concat (map f xs))"
    using Cons.prems by (intro Cons.IH) auto
  moreover have "distinct (f a)" using Cons.prems(2) by simp
  moreover have "set (f a) \<inter> set (f y) = {}" if "y \<in> set xs" for y
    using Cons.prems(1) Cons.prems(3) [of a y] that by auto
  ultimately show ?case by auto
qed

lemma set_cell_tags:
  "set (cell_tags m (x, y)) \<subseteq>
     {(False, x, y), (True, x, y)} \<union>
     (if x = width m - 1 then {(True, width m, y)} else {}) \<union>
     (if y = height m - 1 then {(False, x, height m)} else {})"
  by (auto simp: cell_tags_def)

lemma distinct_cell_tags: "distinct (cell_tags m c)"
  by (cases c) (auto simp: cell_tags_def)

lemma distinct_tags: "distinct (concat (map (cell_tags m) (all_cells m)))"
proof (rule distinct_concat_map [OF distinct_all_cells distinct_cell_tags])
  fix c d assume c: "c \<in> set (all_cells m)" and d: "d \<in> set (all_cells m)" and ne: "c \<noteq> d"
  obtain x y x' y' where cd: "c = (x, y)" "d = (x', y')" by (cases c; cases d) auto
  have g: "x < width m" "y < height m" "x' < width m" "y' < height m"
    using c d by (simp_all add: cd set_all_cells in_grid_def)
  show "set (cell_tags m c) \<inter> set (cell_tags m d) = {}"
  proof (rule ccontr)
    assume "set (cell_tags m c) \<inter> set (cell_tags m d) \<noteq> {}"
    then obtain t where t: "t \<in> set (cell_tags m (x, y))" "t \<in> set (cell_tags m (x', y'))"
      unfolding cd by blast
    from t(1) set_cell_tags [of m x y] have
      1: "t = (False, x, y) \<or> t = (True, x, y) \<or> (x = width m - 1 \<and> t = (True, width m, y)) \<or>
          (y = height m - 1 \<and> t = (False, x, height m))"
      by (auto split: if_splits)
    from t(2) set_cell_tags [of m x' y'] have
      2: "t = (False, x', y') \<or> t = (True, x', y') \<or> (x' = width m - 1 \<and> t = (True, width m, y')) \<or>
          (y' = height m - 1 \<and> t = (False, x', height m))"
      by (auto split: if_splits)
    from 1 2 g ne show False unfolding cd by auto
  qed
qed

lemma distinct_wall_segments:
  assumes "cellSize m \<noteq> 0"
  shows "distinct (wall_segments m)"
proof -
  have "wall_segments m = map (seg_of m) (concat (map (cell_tags m) (all_cells m)))"
    unfolding wall_segments_def map_concat map_map comp_def cell_rects_tags ..
  moreover have "inj_on (seg_of m) (set (concat (map (cell_tags m) (all_cells m))))"
    using seg_of_inj [OF assms] by (rule inj_on_subset) simp
  ultimately show ?thesis
    using distinct_tags [of m] by (simp only: distinct_map)
qed

subsection \<open>Every present wall is covered\<close>

lemma cell_rects_in_segments:
  assumes "in_grid m x y" "r \<in> set (cell_rects m (x, y))"
  shows "r \<in> set (wall_segments m)"
  using assms unfolding wall_segments_def by (auto simp: set_all_cells)

lemma wall_covered:
  assumes g: "in_grid m x y"
  shows "Maze_HasWall m x y MAZE_NORTH \<Longrightarrow> north_rect m x y \<in> set (wall_segments m)"
    and "Maze_HasWall m x y MAZE_WEST \<Longrightarrow> west_rect m x y \<in> set (wall_segments m)"
    and "walls_symmetric m \<Longrightarrow> Maze_HasWall m x y MAZE_EAST \<Longrightarrow>
           east_rect m x y \<in> set (wall_segments m)"
    and "walls_symmetric m \<Longrightarrow> Maze_HasWall m x y MAZE_SOUTH \<Longrightarrow>
           south_rect m x y \<in> set (wall_segments m)"
proof -
  show "Maze_HasWall m x y MAZE_NORTH \<Longrightarrow> north_rect m x y \<in> set (wall_segments m)"
    by (rule cell_rects_in_segments [OF g]) (simp add: cell_rects_def)
  show "Maze_HasWall m x y MAZE_WEST \<Longrightarrow> west_rect m x y \<in> set (wall_segments m)"
    by (rule cell_rects_in_segments [OF g]) (simp add: cell_rects_def)
  show "east_rect m x y \<in> set (wall_segments m)"
    if s: "walls_symmetric m" and e: "Maze_HasWall m x y MAZE_EAST"
  proof (cases "x = width m - 1")
    case True
    show ?thesis
      by (rule cell_rects_in_segments [OF g]) (simp add: cell_rects_def True e [unfolded True])
  next
    case False
    then have g': "in_grid m (x + 1) y" using g by (simp add: in_grid_def)
    have "Maze_HasWall m (x + 1) y MAZE_WEST"
      using s g g' e by (simp add: walls_symmetric_bits HasWall_wall_bit)
    then have "west_rect m (x + 1) y \<in> set (wall_segments m)"
      by (intro cell_rects_in_segments [OF g']) (simp add: cell_rects_def)
    then show ?thesis by (simp add: east_is_west)
  qed
  show "south_rect m x y \<in> set (wall_segments m)"
    if s: "walls_symmetric m" and e: "Maze_HasWall m x y MAZE_SOUTH"
  proof (cases "y = height m - 1")
    case True
    show ?thesis
      by (rule cell_rects_in_segments [OF g]) (simp add: cell_rects_def True e [unfolded True])
  next
    case False
    then have g': "in_grid m x (y + 1)" using g by (simp add: in_grid_def)
    have "Maze_HasWall m x (y + 1) MAZE_NORTH"
      using s g g' e by (simp add: walls_symmetric_bits HasWall_wall_bit)
    then have "north_rect m x (y + 1) \<in> set (wall_segments m)"
      by (intro cell_rects_in_segments [OF g']) (simp add: cell_rects_def)
    then show ?thesis by (simp add: south_is_north)
  qed
qed

lemma length_wall_segments_int:
  assumes "maze_ok m"
  shows "int (length (wall_segments m)) \<le> 4 * (width m * height m)"
proof -
  have "int (length (wall_segments m)) \<le> int (4 * (nat (width m) * nat (height m)))"
    using length_wall_segments [of m] by (simp only: of_nat_le_iff)
  also have "\<dots> = 4 * (width m * height m)"
    using assms by (simp add: maze_ok_def)
  finally show ?thesis .
qed

subsection \<open>The rectangles returned when the buffer is large enough\<close>

text \<open>
  C5 (as amended): for every well-formed maze and every buffer with room for all wall
  rectangles, in particular one of \<open>4 * width * height\<close> entries as the game allocates,
  \<open>Maze_GetWallRects\<close> returns exactly \<open>wall_segments\<close>: in row-major cell order, one
  rectangle for the North wall and one for the West wall of every cell where present, one for
  the East wall of the cells of the last column and one for the South wall of the cells of
  the last row, and nothing else. No rectangle occurs twice. Each rectangle is centred on
  the middle of the cell edge it stands for, is \<open>wallThick\<close> across and reaches
  \<open>wallThick / 2\<close> beyond both ends of the edge. The East rectangle of a cell is the West
  rectangle of its right neighbour and the South rectangle is the North rectangle of the
  cell below, so that in a maze with symmetric wall masks every present wall of every cell
  has its rectangle in the result. Coordinates are real numbers.
\<close>

theorem GetWallRects_wall_segments:
  assumes "maze_ok m" and "int (length (wall_segments m)) \<le> maxRects"
  shows "Maze_GetWallRects m True maxRects = Some (wall_segments m) \<and>
         int (length (wall_segments m)) \<le> 4 * (width m * height m) \<and>
         distinct (wall_segments m) \<and>
         (\<forall>x y. rect (north_rect m x y) =
                  centered_rect (fst (Maze_CellToWorld m x y))
                    (snd (Maze_CellToWorld m x y) - cellSize m / 2)
                    (cellSize m / 2 + wallThick / 2) (wallThick / 2) \<and>
                rect (south_rect m x y) =
                  centered_rect (fst (Maze_CellToWorld m x y))
                    (snd (Maze_CellToWorld m x y) + cellSize m / 2)
                    (cellSize m / 2 + wallThick / 2) (wallThick / 2) \<and>
                rect (west_rect m x y) =
                  centered_rect (fst (Maze_CellToWorld m x y) - cellSize m / 2)
                    (snd (Maze_CellToWorld m x y))
                    (wallThick / 2) (cellSize m / 2 + wallThick / 2) \<and>
                rect (east_rect m x y) =
                  centered_rect (fst (Maze_CellToWorld m x y) + cellSize m / 2)
                    (snd (Maze_CellToWorld m x y))
                    (wallThick / 2) (cellSize m / 2 + wallThick / 2) \<and>
                east_rect m x y = west_rect m (x + 1) y \<and>
                south_rect m x y = north_rect m x (y + 1)) \<and>
         (walls_symmetric m \<longrightarrow>
            (\<forall>x y. in_grid m x y \<longrightarrow>
               (Maze_HasWall m x y MAZE_NORTH \<longrightarrow> north_rect m x y \<in> set (wall_segments m)) \<and>
               (Maze_HasWall m x y MAZE_WEST \<longrightarrow> west_rect m x y \<in> set (wall_segments m)) \<and>
               (Maze_HasWall m x y MAZE_EAST \<longrightarrow> east_rect m x y \<in> set (wall_segments m)) \<and>
               (Maze_HasWall m x y MAZE_SOUTH \<longrightarrow> south_rect m x y \<in> set (wall_segments m))))"
proof -
  have 1: "Maze_GetWallRects m True maxRects = Some (wall_segments m)"
    using assms(2) by (rule GetWallRects_enough_room)
  have 2: "int (length (wall_segments m)) \<le> 4 * (width m * height m)"
    using assms(1) by (rule length_wall_segments_int)
  have "cellSize m \<noteq> 0" using assms(1) by (simp add: maze_ok_def)
  then have 3: "distinct (wall_segments m)" by (rule distinct_wall_segments)
  note 4 = rect_geometry [of m] east_is_west [of m] south_is_north [of m]
  note 5 = wall_covered
  from 1 2 3 show ?thesis
    apply (intro conjI allI impI)
                 apply assumption
                apply assumption
               apply assumption
              apply (rule 4)+
       apply (erule 5; assumption)+
    done
qed

lemma HasWall_15:
  assumes "in_grid m x y" "cells m ! nat (CellIndex m x y) = 15"
  shows "Maze_HasWall m x y MAZE_NORTH" "Maze_HasWall m x y MAZE_EAST"
    "Maze_HasWall m x y MAZE_SOUTH" "Maze_HasWall m x y MAZE_WEST"
  using assms bit_15 [of 0] bit_15 [of 1] bit_15 [of 2] bit_15 [of 3]
  by (simp_all add: HasWall_wall_bit wall_bit_def)

theorem GetWallRects_wall_segments_witness:
  "maze_ok \<lparr>width = 2, height = 2, cells = replicate 4 15, cellSize = 1,
        startPos = (0, 0), exitPos = (1, 1)\<rparr> \<and>
   Maze_GetWallRects \<lparr>width = 2, height = 2, cells = replicate 4 15, cellSize = 1,
        startPos = (0, 0), exitPos = (1, 1)\<rparr> True 16 =
     Some (wall_segments \<lparr>width = 2, height = 2, cells = replicate 4 15, cellSize = 1,
        startPos = (0, 0), exitPos = (1, 1)\<rparr>) \<and>
   distinct (wall_segments \<lparr>width = 2, height = 2, cells = replicate 4 15, cellSize = 1,
        startPos = (0, 0), exitPos = (1, 1)\<rparr>) \<and>
   east_rect \<lparr>width = 2, height = 2, cells = replicate 4 15, cellSize = 1,
        startPos = (0, 0), exitPos = (1, 1)\<rparr> 0 0 \<in>
     set (wall_segments \<lparr>width = 2, height = 2, cells = replicate 4 15, cellSize = 1,
        startPos = (0, 0), exitPos = (1, 1)\<rparr>)"
  (is "maze_ok ?M \<and> _")
proof -
  have ok: "maze_ok ?M" by (simp add: maze_ok_def)
  have len: "int (length (wall_segments ?M)) \<le> 16"
    using length_wall_segments_int [OF ok] by simp
  have sym: "walls_symmetric ?M"
    by (rule all_walls_symmetric [OF ok]) (simp add: all_walls_def)
  have g: "in_grid ?M 0 0" by (simp add: in_grid_def)
  have e: "Maze_HasWall ?M 0 0 MAZE_EAST"
    by (rule HasWall_15 [OF g]) (simp add: CellIndex_def)
  from GetWallRects_wall_segments [OF ok len] sym g e ok show ?thesis by blast
qed

text \<open>
  C5 (as stated) fails when the buffer is smaller than the number of walls: the loop
  conditions \<open>count < maxRects\<close> end the scan. In the 2 x 2 maze with all walls and a buffer
  of two entries the result holds the North and West rectangles of the cell \<open>(0, 0)\<close>
  only, while twelve walls are present, the North wall of the cell \<open>(1, 0)\<close> among them.
\<close>

theorem GetWallRects_truncated_counterexample:
  "Maze_GetWallRects \<lparr>width = 2, height = 2, cells = replicate 4 15, cellSize = 1,
        startPos = (0, 0), exitPos = (1, 1)\<rparr> True 2 =
     Some [north_rect \<lparr>width = 2, height = 2, cells = replicate 4 15, cellSize = 1,
              startPos = (0, 0), exitPos = (1, 1)\<rparr> 0 0,
           west_rect \<lparr>width = 2, height = 2, cells = replicate 4 15, cellSize = 1,
              startPos = (0, 0), exitPos = (1, 1)\<rparr> 0 0] \<and>
   length (wall_segments \<lparr>width = 2, height = 2, cells = replicate 4 15, cellSize = 1,
        startPos = (0, 0), exitPos = (1, 1)\<rparr>) = 12 \<and>
   Maze_HasWall \<lparr>width = 2, height = 2, cells = replicate 4 15, cellSize = 1,
        startPos = (0, 0), exitPos = (1, 1)\<rparr> 1 0 MAZE_NORTH"
  (is "Maze_GetWallRects ?M True 2 = _ \<and> _")
proof -
  have g: "in_grid ?M 0 0" "in_grid ?M 1 0" "in_grid ?M 0 1" "in_grid ?M 1 1"
    by (simp_all add: in_grid_def)
  have c: "cells ?M ! nat (CellIndex ?M 0 0) = 15" "cells ?M ! nat (CellIndex ?M 1 0) = 15"
    "cells ?M ! nat (CellIndex ?M 0 1) = 15" "cells ?M ! nat (CellIndex ?M 1 1) = 15"
    by (simp_all add: CellIndex_def)
  note w = HasWall_15 [OF g(1) c(1)] HasWall_15 [OF g(2) c(2)] HasWall_15 [OF g(3) c(3)]
    HasWall_15 [OF g(4) c(4)]
  have b: "cell_body ?M 2 0 0 [] = Some [north_rect ?M 0 0, west_rect ?M 0 0]"
    by (simp add: cell_body_def emit_def w)
  have r: "row_loop ?M 2 0 0 [] = Some [north_rect ?M 0 0, west_rect ?M 0 0]"
    by (simp add: row_loop.simps [of _ _ _ 0] row_loop.simps [of _ _ _ 1] b)
  have 1: "Maze_GetWallRects ?M True 2 = Some [north_rect ?M 0 0, west_rect ?M 0 0]"
    by (simp add: Maze_GetWallRects_def rows_loop.simps [of _ _ 0] rows_loop.simps [of _ _ 1] r)
  have a: "all_cells ?M = [(0, 0), (1, 0), (0, 1), (1, 1)]"
    by (simp add: all_cells_def upto_rec1)
  have 2: "length (wall_segments ?M) = 12"
    by (simp add: wall_segments_def a cell_rects_def w)
  from 1 2 w(5) show ?thesis by blast
qed

text \<open>
  Within one cell the body writes up to four entries with no test of \<open>count\<close>: with a
  buffer of one entry the 1 x 1 maze with all walls makes the second write go to
  \<open>outRects[1]\<close>, outside the buffer.
\<close>

lemma GetWallRects_write_outside_buffer:
  "Maze_GetWallRects \<lparr>width = 1, height = 1, cells = [15], cellSize = 1,
        startPos = (0, 0), exitPos = (0, 0)\<rparr> True 1 = None"
  (is "Maze_GetWallRects ?M True 1 = None")
proof -
  have g: "in_grid ?M 0 0" by (simp add: in_grid_def)
  have c: "cells ?M ! nat (CellIndex ?M 0 0) = 15" by (simp add: CellIndex_def)
  note w = HasWall_15 [OF g c]
  have b: "cell_body ?M 1 0 0 [] = None"
    by (simp add: cell_body_def emit_def w)
  have r: "row_loop ?M 1 0 0 [] = None"
    by (simp add: row_loop.simps [of _ _ _ 0] b)
  show ?thesis
    by (simp add: Maze_GetWallRects_def rows_loop.simps [of _ _ 0] r)
qed

section \<open>assets.c: the particle pool\<close>

text \<open>
  A particle system owns the array \<open>particles\<close> of \<open>maxParticles\<close> entries; the entries
  \<open>particles[0 .. activeParticles - 1]\<close> are the active set. The array is a list of the
  length it was allocated with. \<open>malloc\<close> does not initialise it: \<open>init\<close> is the content
  found in the fresh memory. A read or write of \<open>particles[j]\<close> with \<open>j\<close> outside the array
  makes the result \<open>None\<close>.
\<close>

record Color =
  col_r :: "8 word"
  col_g :: "8 word"
  col_b :: "8 word"
  col_a :: "8 word"

record Particle =
  position :: Vector3
  velocity :: Vector3
  life :: real
  maxLife :: real
  psize :: real
  color :: Color

record ParticleSystem =
  particles :: "Particle list"
  maxParticles :: int
  activeParticles :: int
  emitterPos :: Vector3
  emitRate :: real
  emitAccumulator :: real

definition ParticleSystem_Create ::
    "bool \<Rightarrow> bool \<Rightarrow> (nat \<Rightarrow> Particle) \<Rightarrow> int \<Rightarrow> ParticleSystem option" where
  "ParticleSystem_Create ps_ok particles_ok init maxP =
     (if \<not> ps_ok then None
      else if \<not> particles_ok then None
      else Some \<lparr> particles = map init [0 ..< nat maxP],
                  maxParticles = maxP,
                  activeParticles = 0,
                  emitterPos = (0, 0, 0),
                  emitRate = 15,
                  emitAccumulator = 0 \<rparr>)"

text \<open>
  The particle written by one iteration of the emission loop. It takes six values of
  \<open>rand()\<close>, read here in the order of the source text.
\<close>

definition new_particle :: "(nat \<Rightarrow> nat) \<Rightarrow> nat \<Rightarrow> Vector3 \<Rightarrow> Particle" where
  "new_particle rnd k e =
     \<lparr> position = (fst e, fst (snd e) + 0.25, snd (snd e)),
       velocity = ((real (rnd k mod 200) - 100) / 500,
                   (real (rnd (k + 1) mod 300) + 100) / 500,
                   (real (rnd (k + 2) mod 200) - 100) / 500),
       life = 1,
       maxLife = 0.5 + real (rnd (k + 3) mod 50) / 100,
       psize = 0.05 + real (rnd (k + 4) mod 30) / 1000,
       color = \<lparr> col_r = 255, col_g = of_nat (150 + rnd (k + 5) mod 50), col_b = 0, col_a = 255 \<rparr> \<rparr>"

function emit_loop ::
    "(nat \<Rightarrow> nat) \<Rightarrow> Vector3 \<Rightarrow> int \<Rightarrow> int \<Rightarrow> ParticleSystem \<Rightarrow> nat \<Rightarrow> (ParticleSystem \<times> nat) option" where
  "emit_loop rnd e toEmit i ps k =
     (if i < toEmit \<and> activeParticles ps < maxParticles ps then
        (if 0 \<le> activeParticles ps \<and> nat (activeParticles ps) < length (particles ps) then
           emit_loop rnd e toEmit (i + 1)
             (ps \<lparr> particles := (particles ps) [nat (activeParticles ps) := new_particle rnd k e],
                   activeParticles := activeParticles ps + 1 \<rparr>)
             (k + 6)
         else None)
      else Some (ps, k))"
  by pat_completeness auto
termination
  by (relation "measure (\<lambda>(rnd, e, toEmit, i, ps, k). nat (toEmit - i))") auto

declare emit_loop.simps [simp del]

text \<open>The physics and ageing of one particle over the time \<open>dt\<close>.\<close>

definition step_particle :: "real \<Rightarrow> Particle \<Rightarrow> Particle" where
  "step_particle dt p =
     (case velocity p of (vx, vy, vz) \<Rightarrow>
      case position p of (px, py, pz) \<Rightarrow>
        let vy' = vy + (- 2) * dt in
        p \<lparr> velocity := (vx, vy', vz),
            position := (px + vx * dt, py + vy' * dt, pz + vz * dt),
            life := life p - dt \<rparr>)"

text \<open>
  The update loop. After a removal the source decrements \<open>i\<close> and the loop header
  increments it again, so the slot \<open>i\<close>, which now holds the former last particle, is
  visited next.
\<close>

function update_loop :: "real \<Rightarrow> int \<Rightarrow> ParticleSystem \<Rightarrow> ParticleSystem option" where
  "update_loop dt i ps =
     (if i < activeParticles ps then
        (if 0 \<le> i \<and> nat i < length (particles ps) then
           let p = step_particle dt (particles ps ! nat i);
               ps1 = ps \<lparr> particles := (particles ps) [nat i := p] \<rparr>
           in if life p \<le> 0 then
                (if nat (activeParticles ps1 - 1) < length (particles ps1) then
                   update_loop dt i
                     (ps1 \<lparr> particles := (particles ps1)
                               [nat i := particles ps1 ! nat (activeParticles ps1 - 1)],
                            activeParticles := activeParticles ps1 - 1 \<rparr>)
                 else None)
              else update_loop dt (i + 1) ps1
         else None)
      else Some ps)"
  by pat_completeness auto
termination
  by (relation "measure (\<lambda>(dt, i, ps). nat (activeParticles ps - i))") auto

declare update_loop.simps [simp del]

definition emit_phase ::
    "(nat \<Rightarrow> nat) \<Rightarrow> nat \<Rightarrow> ParticleSystem \<Rightarrow> Vector3 \<Rightarrow> real \<Rightarrow> (ParticleSystem \<times> nat) option" where
  "emit_phase rnd k ps e dt =
     (let ps1 = ps \<lparr> emitterPos := e \<rparr>;
          ps2 = ps1 \<lparr> emitAccumulator := emitAccumulator ps1 + emitRate ps1 * dt \<rparr>;
          toEmit = float_to_int (emitAccumulator ps2);
          ps3 = ps2 \<lparr> emitAccumulator := emitAccumulator ps2 - of_int toEmit \<rparr>
      in emit_loop rnd e toEmit 0 ps3 k)"

definition ParticleSystem_Update ::
    "(nat \<Rightarrow> nat) \<Rightarrow> nat \<Rightarrow> ParticleSystem \<Rightarrow> Vector3 \<Rightarrow> real \<Rightarrow> (ParticleSystem \<times> nat) option" where
  "ParticleSystem_Update rnd k ps e dt =
     (case emit_phase rnd k ps e dt of
        None \<Rightarrow> None
      | Some (ps1, k1) \<Rightarrow>
          (case update_loop dt 0 ps1 of
             None \<Rightarrow> None
           | Some ps2 \<Rightarrow> Some (ps2, k1)))"

text \<open>A sequence of calls \<open>ParticleSystem_Update(ps, e, dt)\<close>, one per element of the list.\<close>

fun run_updates ::
    "(nat \<Rightarrow> nat) \<Rightarrow> nat \<Rightarrow> ParticleSystem \<Rightarrow> (Vector3 \<times> real) list \<Rightarrow> (ParticleSystem \<times> nat) option" where
  "run_updates rnd k ps [] = Some (ps, k)"
| "run_updates rnd k ps ((e, dt) # us) =
     (case ParticleSystem_Update rnd k ps e dt of
        None \<Rightarrow> None
      | Some (ps1, k1) \<Rightarrow> run_updates rnd k1 ps1 us)"

definition active_set :: "ParticleSystem \<Rightarrow> Particle list" where
  "active_set ps = take (nat (activeParticles ps)) (particles ps)"

definition pool_ok :: "ParticleSystem \<Rightarrow> bool" where
  "pool_ok ps =
     (0 \<le> activeParticles ps \<and> activeParticles ps \<le> maxParticles ps \<and>
      length (particles ps) = nat (maxParticles ps))"

subsection \<open>Creation\<close>

lemma ParticleSystem_Create_pool_ok:
  assumes "ParticleSystem_Create ps_ok particles_ok init cap = Some ps" "0 \<le> cap"
  shows "pool_ok ps" "maxParticles ps = cap" "active_set ps = []"
  using assms
  by (auto simp: ParticleSystem_Create_def pool_ok_def active_set_def split: if_splits)

subsection \<open>The emission loop\<close>

lemma emit_loop_ok:
  assumes "pool_ok ps"
  shows "\<exists>ps' k'. emit_loop rnd e toEmit i ps k = Some (ps', k') \<and> pool_ok ps' \<and>
           maxParticles ps' = maxParticles ps"
  using assms
proof (induction rnd e toEmit i ps k rule: emit_loop.induct)
  case (1 rnd e toEmit i ps k)
  show ?case
  proof (cases "i < toEmit \<and> activeParticles ps < maxParticles ps")
    case False
    have "emit_loop rnd e toEmit i ps k = Some (ps, k)"
      by (subst emit_loop.simps) (simp only: False if_False)
    then show ?thesis using "1.prems" by simp
  next
    case True
    have r: "0 \<le> activeParticles ps \<and> nat (activeParticles ps) < length (particles ps)"
      using True "1.prems" by (simp add: pool_ok_def)
    define ps1 where "ps1 = ps \<lparr> particles := (particles ps) [nat (activeParticles ps) := new_particle rnd k e],
                   activeParticles := activeParticles ps + 1 \<rparr>"
    have ok1: "pool_ok ps1" using True "1.prems" by (simp add: pool_ok_def ps1_def)
    from "1.IH" [OF True r ok1 [unfolded ps1_def]]
    obtain ps' k' where "emit_loop rnd e toEmit (i + 1) ps1 (k + 6) = Some (ps', k')"
      "pool_ok ps'" "maxParticles ps' = maxParticles ps1"
      unfolding ps1_def by blast
    moreover have "emit_loop rnd e toEmit i ps k = emit_loop rnd e toEmit (i + 1) ps1 (k + 6)"
      by (subst emit_loop.simps) (simp only: True r if_True simp_thms ps1_def)
    ultimately show ?thesis by (simp add: ps1_def)
  qed
qed

subsection \<open>The update loop\<close>

lemma mset_drop_take_first:
  assumes "j < n" "n \<le> length xs"
  shows "mset (drop j (take n xs)) = add_mset (xs ! j) (mset (drop (Suc j) (take n xs)))"
proof -
  have "j < length (take n xs)" using assms by simp
  from Cons_nth_drop_Suc [OF this]
  have "drop j (take n xs) = take n xs ! j # drop (Suc j) (take n xs)" by simp
  then show ?thesis using assms by simp
qed

lemma mset_drop_take_last:
  assumes "j < n" "n \<le> length xs"
  shows "mset (drop j (take n xs)) = add_mset (xs ! (n - 1)) (mset (drop j (take (n - 1) xs)))"
proof -
  have "take (Suc (n - 1)) xs = take (n - 1) xs @ [xs ! (n - 1)]"
    using assms by (intro take_Suc_conv_app_nth) simp
  then have "take n xs = take (n - 1) xs @ [xs ! (n - 1)]" using assms by simp
  then show ?thesis using assms by simp
qed

definition survivors :: "real \<Rightarrow> Particle multiset \<Rightarrow> Particle multiset" where
  "survivors dt M = filter_mset (\<lambda>q. 0 < life q) (image_mset (step_particle dt) M)"

lemma survivors_add:
  "survivors dt (add_mset p M) =
     (if 0 < life (step_particle dt p) then add_mset (step_particle dt p) (survivors dt M)
      else survivors dt M)"
  by (simp add: survivors_def)

lemma survivors_empty: "survivors dt {#} = {#}"
  by (simp add: survivors_def)

lemma update_loop_ok:
  assumes "pool_ok ps" "0 \<le> i" "i \<le> activeParticles ps"
  shows "\<exists>ps'. update_loop dt i ps = Some ps' \<and> pool_ok ps' \<and>
           maxParticles ps' = maxParticles ps \<and>
           i \<le> activeParticles ps' \<and> activeParticles ps' \<le> activeParticles ps \<and>
           take (nat i) (particles ps') = take (nat i) (particles ps) \<and>
           mset (drop (nat i) (active_set ps')) =
             survivors dt (mset (drop (nat i) (active_set ps)))"
  using assms
proof (induction dt i ps rule: update_loop.induct)
  case (1 dt i ps)
  define xs where "xs = particles ps"
  define n where "n = nat (activeParticles ps)"
  define j where "j = nat i"
  define p where "p = step_particle dt (xs ! j)"
  note ok = "1.prems"(1) [unfolded pool_ok_def]
  show ?case
  proof (cases "i < activeParticles ps")
    case False
    then have e: "i = activeParticles ps" using "1.prems" by simp
    have "update_loop dt i ps = Some ps"
      by (subst update_loop.simps) (simp only: False if_False)
    then show ?thesis
      using "1.prems" by (simp add: e active_set_def survivors_empty)
  next
    case True
    have jn: "j < n" "n \<le> length xs"
      using True "1.prems"(2) ok by (auto simp: j_def n_def xs_def intro: nat_mono)
    have r: "0 \<le> i \<and> nat i < length (particles ps)"
      using jn "1.prems"(2) by (simp add: j_def xs_def)
    define ps1 where "ps1 = ps \<lparr> particles := (particles ps) [nat i := step_particle dt (particles ps ! nat i)] \<rparr>"
    have ok1: "pool_ok ps1" using "1.prems"(1) by (simp add: pool_ok_def ps1_def)
    have first: "mset (drop j (take n xs)) = add_mset (xs ! j) (mset (drop (Suc j) (take n xs)))"
      using jn by (rule mset_drop_take_first)
    show ?thesis
    proof (cases "life p \<le> 0")
      case dead: True
      have r2: "nat (activeParticles ps1 - 1) < length (particles ps1)"
        using jn True by (simp add: ps1_def n_def xs_def)
      define w where "w = particles ps1 ! nat (activeParticles ps1 - 1)"
      define ps2 where "ps2 = ps1 \<lparr> particles := (particles ps1) [nat i := w],
                            activeParticles := activeParticles ps1 - 1 \<rparr>"
      have n1: "nat (activeParticles ps - 1) = n - 1" by (simp add: n_def nat_diff_distrib')
      have xs2: "particles ps2 = xs [j := w]"
        by (simp add: ps2_def ps1_def xs_def j_def)
      have ok2: "pool_ok ps2"
        using ok1 True "1.prems"(2) by (simp add: pool_ok_def ps2_def ps1_def)
      have i2: "i \<le> activeParticles ps2" using True by (simp add: ps2_def ps1_def)
      from "1.IH"(1) [OF True r refl refl dead [unfolded p_def xs_def j_def] r2 [unfolded ps1_def]
          ok2 [unfolded ps2_def w_def ps1_def] "1.prems"(2) i2 [unfolded ps2_def w_def ps1_def]]
      obtain ps' where res: "update_loop dt i ps2 = Some ps'" "pool_ok ps'"
        "maxParticles ps' = maxParticles ps2" "i \<le> activeParticles ps'"
        "activeParticles ps' \<le> activeParticles ps2"
        "take j (particles ps') = take j (particles ps2)"
        "mset (drop j (active_set ps')) = survivors dt (mset (drop j (active_set ps2)))"
        unfolding ps2_def w_def ps1_def j_def by blast
      have step: "update_loop dt i ps = update_loop dt i ps2"
        using True r dead r2
        by (simp add: update_loop.simps [of dt i ps] Let_def ps2_def w_def ps1_def p_def xs_def j_def)
      have a2: "active_set ps2 = take (n - 1) (xs [j := w])"
        by (simp add: active_set_def xs2) (simp add: ps2_def ps1_def n1)
      have "survivors dt (mset (drop j (take (n - 1) (xs [j := w])))) =
            survivors dt (mset (drop j (take n xs)))"
      proof (cases "j = n - 1")
        case True
        then have e: "drop (Suc j) (take n xs) = []" using jn by simp
        have "survivors dt (mset (drop j (take n xs))) = {#}"
          unfolding first e using dead by (simp add: survivors_add survivors_empty p_def)
        moreover have "drop j (take (n - 1) (xs [j := w])) = []" using True by simp
        ultimately show ?thesis by (simp add: survivors_empty)
      next
        case False
        then have jn1: "j < n - 1" "Suc j < n" "n - 1 \<le> length (xs [j := w])" using jn by simp_all
        have wv: "w = xs ! (n - 1)"
          using False jn by (simp add: w_def ps1_def n1 xs_def [symmetric] j_def [symmetric])
        have "mset (drop j (take (n - 1) (xs [j := w]))) =
              add_mset w (mset (drop (Suc j) (take (n - 1) xs)))"
          using mset_drop_take_first [OF jn1(1,3)] jn jn1
          by (simp add: take_update_swap drop_update_cancel)
        moreover have "mset (drop (Suc j) (take n xs)) =
              add_mset (xs ! (n - 1)) (mset (drop (Suc j) (take (n - 1) xs)))"
          using jn1(2) jn(2) by (rule mset_drop_take_last)
        ultimately show ?thesis using dead by (simp add: first survivors_add p_def wv)
      qed
      then have "mset (drop j (active_set ps')) = survivors dt (mset (drop j (active_set ps)))"
        using res(7) by (simp add: a2) (simp add: active_set_def n_def xs_def)
      moreover have "take j (particles ps') = take j (particles ps)"
        using res(6) by (simp add: xs2 xs_def)
      moreover have "maxParticles ps' = maxParticles ps"
        using res(3) by (simp add: ps2_def ps1_def)
      moreover have "activeParticles ps' \<le> activeParticles ps"
        using res(5) by (simp add: ps2_def ps1_def)
      ultimately show ?thesis using res(1,2,4) step by (simp add: j_def)
    next
      case alive: False
      have i1: "0 \<le> i + 1" "i + 1 \<le> activeParticles ps1"
        using True "1.prems"(2) by (simp_all add: ps1_def)
      have sj: "nat (i + 1) = Suc j" using "1.prems"(2) by (simp add: j_def nat_add_distrib)
      from "1.IH"(2) [OF True r refl refl alive [unfolded p_def xs_def j_def]
          ok1 [unfolded ps1_def] i1(1) i1(2) [unfolded ps1_def]]
      obtain ps' where res: "update_loop dt (i + 1) ps1 = Some ps'" "pool_ok ps'"
        "maxParticles ps' = maxParticles ps1" "i + 1 \<le> activeParticles ps'"
        "activeParticles ps' \<le> activeParticles ps1"
        "take (Suc j) (particles ps') = take (Suc j) (particles ps1)"
        "mset (drop (Suc j) (active_set ps')) = survivors dt (mset (drop (Suc j) (active_set ps1)))"
        unfolding ps1_def sj by blast
      have step: "update_loop dt i ps = update_loop dt (i + 1) ps1"
        using True r alive
        by (simp add: update_loop.simps [of dt i ps] Let_def ps1_def p_def xs_def j_def)
      define ys where "ys = particles ps'"
      define n' where "n' = nat (activeParticles ps')"
      have jn': "j < n'" "n' \<le> length ys"
        using res(4) res(2) "1.prems"(2)
        by (auto simp: n'_def j_def ys_def pool_ok_def intro: nat_mono)
      have xs1: "particles ps1 = xs [j := p]" by (simp add: ps1_def xs_def j_def p_def)
      have "take j (take (Suc j) ys) = take j (take (Suc j) (xs [j := p]))"
        using res(6) by (simp only: ys_def xs1)
      then have tk: "take j ys = take j xs" by simp
      have "take (Suc j) ys ! j = take (Suc j) (xs [j := p]) ! j"
        using res(6) by (simp only: ys_def xs1)
      then have yj: "ys ! j = p" using jn by simp
      have "mset (drop j (take n' ys)) = add_mset p (mset (drop (Suc j) (take n' ys)))"
        using mset_drop_take_first [OF jn'] by (simp add: yj)
      also have "mset (drop (Suc j) (take n' ys)) = survivors dt (mset (drop (Suc j) (take n (xs [j := p]))))"
        using res(7) by (simp add: active_set_def ys_def n'_def xs1) (simp add: ps1_def n_def)
      also have "drop (Suc j) (take n (xs [j := p])) = drop (Suc j) (take n xs)"
        by (simp add: take_update_swap drop_update_cancel)
      finally have "mset (drop j (take n' ys)) = survivors dt (mset (drop j (take n xs)))"
        using alive by (simp add: first survivors_add p_def)
      then have "mset (drop j (active_set ps')) = survivors dt (mset (drop j (active_set ps)))"
        by (simp add: active_set_def ys_def n'_def n_def xs_def)
      moreover have "take j (particles ps') = take j (particles ps)"
        using tk by (simp add: ys_def xs_def)
      moreover have "maxParticles ps' = maxParticles ps"
        using res(3) by (simp add: ps1_def)
      moreover have "activeParticles ps' \<le> activeParticles ps" "i \<le> activeParticles ps'"
        using res(4,5) by (simp_all add: ps1_def)
      ultimately show ?thesis using res(1,2) step by (simp add: j_def)
    qed
  qed
qed

subsection \<open>One call and sequences of calls\<close>

definition all_alive :: "ParticleSystem \<Rightarrow> bool" where
  "all_alive ps = (\<forall>q \<in> set (active_set ps). 0 < life q)"

lemma emit_phase_ok:
  assumes "pool_ok ps"
  shows "\<exists>ps1 k1. emit_phase rnd k ps e dt = Some (ps1, k1) \<and> pool_ok ps1 \<and>
           maxParticles ps1 = maxParticles ps"
proof -
  define ps3 where "ps3 = ps \<lparr> emitterPos := e,
      emitAccumulator := emitAccumulator ps + emitRate ps * dt -
        of_int (float_to_int (emitAccumulator ps + emitRate ps * dt)) \<rparr>"
  have ok3: "pool_ok ps3" using assms by (simp add: pool_ok_def ps3_def)
  have "emit_phase rnd k ps e dt =
      emit_loop rnd e (float_to_int (emitAccumulator ps + emitRate ps * dt)) 0 ps3 k"
    by (simp add: emit_phase_def Let_def ps3_def)
  moreover have "maxParticles ps3 = maxParticles ps" by (simp add: ps3_def)
  ultimately show ?thesis
    using emit_loop_ok [OF ok3, of rnd e "float_to_int (emitAccumulator ps + emitRate ps * dt)" 0 k]
    by simp
qed

lemma ParticleSystem_Update_ok:
  assumes "pool_ok ps"
  shows "\<exists>ps1 k1 ps2. emit_phase rnd k ps e dt = Some (ps1, k1) \<and>
           update_loop dt 0 ps1 = Some ps2 \<and>
           ParticleSystem_Update rnd k ps e dt = Some (ps2, k1) \<and>
           pool_ok ps2 \<and> maxParticles ps2 = maxParticles ps \<and>
           activeParticles ps2 \<le> activeParticles ps1 \<and>
           mset (active_set ps2) = survivors dt (mset (active_set ps1)) \<and> all_alive ps2"
proof -
  from emit_phase_ok [OF assms, of rnd k e dt]
  obtain ps1 k1 where 1: "emit_phase rnd k ps e dt = Some (ps1, k1)" "pool_ok ps1"
    "maxParticles ps1 = maxParticles ps"
    by blast
  have "0 \<le> activeParticles ps1" using 1(2) by (simp add: pool_ok_def)
  from update_loop_ok [OF 1(2) order_refl this, of dt]
  obtain ps2 where 2: "update_loop dt 0 ps1 = Some ps2" "pool_ok ps2"
    "maxParticles ps2 = maxParticles ps1" "activeParticles ps2 \<le> activeParticles ps1"
    "mset (active_set ps2) = survivors dt (mset (active_set ps1))"
    by auto
  have "set_mset (mset (active_set ps2)) \<subseteq> {q. 0 < life q}"
    unfolding 2(5) survivors_def by auto
  then have 3: "all_alive ps2" by (auto simp: all_alive_def)
  have 4: "ParticleSystem_Update rnd k ps e dt = Some (ps2, k1)"
    by (simp add: ParticleSystem_Update_def 1(1) 2(1))
  from 1 2 3 4 show ?thesis by simp
qed

lemma run_updates_ok:
  assumes "pool_ok ps" "all_alive ps"
  shows "\<exists>ps' k'. run_updates rnd k ps us = Some (ps', k') \<and> pool_ok ps' \<and>
           maxParticles ps' = maxParticles ps \<and> all_alive ps'"
  using assms
proof (induction us arbitrary: ps k)
  case Nil
  then show ?case by simp
next
  case (Cons u us)
  obtain e dt where u: "u = (e, dt)" by (cases u)
  from ParticleSystem_Update_ok [OF Cons.prems(1), of rnd k e dt]
  obtain ps2 k1 where 1: "ParticleSystem_Update rnd k ps e dt = Some (ps2, k1)" "pool_ok ps2"
    "maxParticles ps2 = maxParticles ps" "all_alive ps2"
    by blast
  from Cons.IH [OF 1(2) 1(4), of k1] 1(1,3) show ?case by (simp add: u)
qed

text \<open>
  C3: for every particle system returned by \<open>ParticleSystem_Create\<close> with a capacity
  \<open>maxParticles \<ge> 0\<close>, every sequence of calls of \<open>ParticleSystem_Update\<close>, with any emitter
  positions, any time steps and any values of \<open>rand()\<close>, returns without an access outside
  the array and leaves \<open>0 \<le> activeParticles \<le> maxParticles\<close> with \<open>maxParticles\<close>
  unchanged and every particle of the active set with \<open>life > 0\<close>. In the next call the
  update loop keeps exactly the particles whose life is still positive after the step:
  as a multiset, the active set after the call is the active set after emission, each
  particle advanced by \<open>dt\<close>, without those whose life has reached 0 or less.
  The capacity is taken non-negative: for a negative \<open>maxParticles\<close> the size
  \<open>maxParticles * sizeof(Particle)\<close> wraps around as a \<open>size_t\<close> to a request that no
  allocator grants, while the model leaves the outcome of \<open>malloc\<close> open.
\<close>

theorem particle_pool_bound:
  assumes "ParticleSystem_Create ps_ok particles_ok init cap = Some ps0" and "0 \<le> cap"
  shows "\<exists>ps k1. run_updates rnd k ps0 us = Some (ps, k1) \<and>
           maxParticles ps = cap \<and>
           0 \<le> activeParticles ps \<and> activeParticles ps \<le> maxParticles ps \<and>
           (\<forall>q \<in> set (active_set ps). 0 < life q) \<and>
           (\<forall>e dt. \<exists>ps1 k2 ps2.
              emit_phase rnd k1 ps e dt = Some (ps1, k2) \<and>
              update_loop dt 0 ps1 = Some ps2 \<and>
              ParticleSystem_Update rnd k1 ps e dt = Some (ps2, k2) \<and>
              activeParticles ps2 \<le> activeParticles ps1 \<and>
              mset (active_set ps2) =
                filter_mset (\<lambda>q. 0 < life q)
                  (image_mset (step_particle dt) (mset (active_set ps1))))"
proof -
  note c = ParticleSystem_Create_pool_ok [OF assms]
  have "all_alive ps0" by (simp add: all_alive_def c(3))
  from run_updates_ok [OF c(1) this, of rnd k us]
  obtain ps k1 where 1: "run_updates rnd k ps0 us = Some (ps, k1)" "pool_ok ps"
    "maxParticles ps = maxParticles ps0" "all_alive ps"
    by blast
  have 2: "\<exists>ps1 k2 ps2.
              emit_phase rnd k1 ps e dt = Some (ps1, k2) \<and>
              update_loop dt 0 ps1 = Some ps2 \<and>
              ParticleSystem_Update rnd k1 ps e dt = Some (ps2, k2) \<and>
              activeParticles ps2 \<le> activeParticles ps1 \<and>
              mset (active_set ps2) =
                filter_mset (\<lambda>q. 0 < life q)
                  (image_mset (step_particle dt) (mset (active_set ps1)))" for e dt
    using ParticleSystem_Update_ok [OF 1(2), of rnd k1 e dt] unfolding survivors_def by blast
  have 3: "0 \<le> activeParticles ps" "activeParticles ps \<le> maxParticles ps"
    using 1(2) by (simp_all add: pool_ok_def)
  have 4: "\<forall>q \<in> set (active_set ps). 0 < life q" using 1(4) by (simp add: all_alive_def)
  have 5: "maxParticles ps = cap" using 1(3) c(2) by simp
  from 1(1) 2 3 4 5 show ?thesis by blast
qed

definition init_zero :: "nat \<Rightarrow> Particle" where
  "init_zero j = \<lparr> position = (0, 0, 0), velocity = (0, 0, 0), life = 0, maxLife = 0, psize = 0,
      color = \<lparr> col_r = 0, col_g = 0, col_b = 0, col_a = 0 \<rparr> \<rparr>"

theorem particle_pool_bound_witness:
  "\<exists>ps k1. run_updates (rand_const 0) 0
       \<lparr> particles = [init_zero 0, init_zero 1], maxParticles = 2, activeParticles = 0,
         emitterPos = (0, 0, 0), emitRate = 15, emitAccumulator = 0 \<rparr>
       [((0, 0, 0), 1 / 10), ((0, 0, 0), 1)] = Some (ps, k1) \<and>
     maxParticles ps = 2 \<and> 0 \<le> activeParticles ps \<and> activeParticles ps \<le> maxParticles ps \<and>
     (\<forall>q \<in> set (active_set ps). 0 < life q)"
proof -
  have c: "ParticleSystem_Create True True init_zero 2 =
      Some \<lparr> particles = [init_zero 0, init_zero 1], maxParticles = 2, activeParticles = 0,
         emitterPos = (0, 0, 0), emitRate = 15, emitAccumulator = 0 \<rparr>"
    by (simp add: ParticleSystem_Create_def upt_rec)
  have z: "(0::int) \<le> 2" by simp
  from particle_pool_bound [OF c z, where rnd = "rand_const 0" and k = 0
      and us = "[((0, 0, 0), 1 / 10), ((0, 0, 0), 1)]"]
  show ?thesis by blast
qed

text \<open>
  An example run with capacity 2: the first call (\<open>dt = 0.1\<close>) emits one particle and
  leaves it with life 0.9; the second call (\<open>dt = 1\<close>) would emit fifteen, has room for
  one, and removes both particles, whose life is then \<open>- 0.1\<close> and 0.
\<close>

lemma particle_pool_example:
  "map_option (\<lambda>(ps, k). (activeParticles ps, map life (active_set ps), k))
     (run_updates (rand_const 0) 0
       \<lparr> particles = [init_zero 0, init_zero 1], maxParticles = 2, activeParticles = 0,
         emitterPos = (0, 0, 0), emitRate = 15, emitAccumulator = 0 \<rparr>
       [((0, 0, 0), 1 / 10)]) = Some (1, [9 / 10], 6)"
  "map_option (\<lambda>(ps, k). (activeParticles ps, map life (active_set ps), k))
     (run_updates (rand_const 0) 0
       \<lparr> particles = [init_zero 0, init_zero 1], maxParticles = 2, activeParticles = 0,
         emitterPos = (0, 0, 0), emitRate = 15, emitAccumulator = 0 \<rparr>
       [((0, 0, 0), 1 / 10), ((0, 0, 0), 1)]) = Some (0, [], 12)"
  by (simp_all add: ParticleSystem_Update_def emit_phase_def Let_def emit_loop.simps
      update_loop.simps float_to_int_def INT_MIN_def INT_MAX_def new_particle_def
      step_particle_def active_set_def rand_const_def init_zero_def)

end
